theory Spec2Isabelle
  imports Main "HOL-Library.Char_ord" "HOL-Library.List_Lexorder"
begin

section \<open>Strings of the matcher\<close>

text \<open>
  The matching-and-generation engine of the M3U/XMLTV channel matcher lives in
  \<^verbatim>\<open>core.py\<close>.  Its strings are Python \<^verbatim>\<open>str\<close> values.  They are
  modelled as \<^typ>\<open>string\<close>, one \<^typ>\<open>char\<close> per code point, which covers the code
  points below 256 (Latin-1); on that range the character classes below are the ones
  CPython uses for \<^verbatim>\<open>str.lower\<close>, \<^verbatim>\<open>str.strip\<close>, \<^verbatim>\<open>str.split\<close> and for
  \<^verbatim>\<open>\s\<close> and \<^verbatim>\<open>\d\<close> in a \<^verbatim>\<open>str\<close> pattern of \<^verbatim>\<open>re\<close>.
\<close>

definition code_point :: "char \<Rightarrow> nat" where
  "code_point c = of_char c"

text \<open>White space as \<^verbatim>\<open>str.isspace\<close> has it: TAB..CR, FS..US, SPACE, NEL and NBSP.\<close>

definition is_space :: "char \<Rightarrow> bool" where
  "is_space c =
     (let n = code_point c
      in (9 \<le> n \<and> n \<le> 13) \<or> (28 \<le> n \<and> n \<le> 32) \<or> n = 133 \<or> n = 160)"

definition is_digit :: "char \<Rightarrow> bool" where
  "is_digit c = (let n = code_point c in 48 \<le> n \<and> n \<le> 57)"

definition is_lower_az :: "char \<Rightarrow> bool" where
  "is_lower_az c = (let n = code_point c in 97 \<le> n \<and> n \<le> 122)"

text \<open>
  \<^verbatim>\<open>str.lower\<close> on one code point: A..Z and the Latin-1 capitals (all of
  U+00C0..U+00DE but the multiplication sign U+00D7) move up by 32.
\<close>

definition lower_char :: "char \<Rightarrow> char" where
  "lower_char c =
     (let n = code_point c
      in if (65 \<le> n \<and> n \<le> 90) \<or> (192 \<le> n \<and> n \<le> 222 \<and> n \<noteq> 215)
         then char_of (n + 32) else c)"

definition py_lower :: "string \<Rightarrow> string" where
  "py_lower s = map lower_char s"

text \<open>\<^verbatim>\<open>re.sub(r'[^a-z0-9\s]', '', name)\<close>: every character outside the class goes.\<close>

definition kept_char :: "char \<Rightarrow> bool" where
  "kept_char c = (is_lower_az c \<or> is_digit c \<or> is_space c)"

definition sub_other_chars :: "string \<Rightarrow> string" where
  "sub_other_chars s = filter kept_char s"

text \<open>
  \<^verbatim>\<open>re.sub(r'\s+', ' ', name)\<close>: a scanner whose flag says that the run of white
  space under the cursor has already been replaced by its one space.
\<close>

fun sub_space_runs :: "bool \<Rightarrow> string \<Rightarrow> string" where
  "sub_space_runs in_run [] = []"
| "sub_space_runs in_run (c # cs) =
     (if is_space c
      then (if in_run then sub_space_runs True cs else CHR '' '' # sub_space_runs True cs)
      else c # sub_space_runs False cs)"

definition py_strip :: "string \<Rightarrow> string" where
  "py_strip s = rev (dropWhile is_space (rev (dropWhile is_space s)))"

text \<open>
  \<^verbatim>\<open>str.split()\<close> with no separator: the maximal runs of characters that are not
  white space, in order; \<open>cur\<close> is the token being read.
\<close>

fun split_from :: "string \<Rightarrow> string \<Rightarrow> string list" where
  "split_from cur [] = (if cur = [] then [] else [cur])"
| "split_from cur (c # cs) =
     (if is_space c
      then (if cur = [] then split_from [] cs else cur # split_from [] cs)
      else split_from (cur @ [c]) cs)"

definition py_split :: "string \<Rightarrow> string list" where
  "py_split s = split_from [] s"

subsection \<open>The name normalizer\<close>

text \<open>
  \<^verbatim>\<open>
  def normalize_name(name):
      name = name.lower()
      name = re.sub(r'[^a-z0-9\s]', '', name)
      return re.sub(r'\s+', ' ', name).strip()
  \<close>
\<close>

definition normalize_name :: "string \<Rightarrow> string" where
  "normalize_name name =
     py_strip (sub_space_runs False (sub_other_chars (py_lower name)))"

section \<open>Data model\<close>

text \<open>
  The dictionaries that \<^verbatim>\<open>parse_m3u\<close> and \<^verbatim>\<open>parse_xmltv\<close> build, with their keys
  as fields.  \<^verbatim>\<open>channel_elem.get('id')\<close> and \<^verbatim>\<open>icon_elem.get('src')\<close> are
  \<^verbatim>\<open>None\<close> when the attribute is missing, so both fields are optional (the key
  \<^verbatim>\<open>'id'\<close> is the field \<open>channel_id\<close>).  The element is the channel's subtree, held by
  its serialisation; a match rebuilt from a saved session has none.
\<close>

record playlist_entry =
  name :: string
  url :: string
  original_extinf :: string
  tvg_id :: string
  group_title :: string
  tvg_logo :: string
  source_file :: string

record guide_channel =
  channel_id :: "string option"
  display_name :: string
  all_display_names :: "string list"
  element :: "string option"
  icon :: "string option"
  xmltv_source_file :: string

text \<open>One dictionary of \<^verbatim>\<open>processed_channels_data\<close>.\<close>

record match_result =
  m3u_data :: playlist_entry
  xmltv_match :: "guide_channel option"
  score :: int
  selected :: bool

section \<open>Index builder\<close>

type_synonym token_index = "string \<rightharpoonup> string set"
type_synonym name_index = "string \<rightharpoonup> guide_channel"
type_synonym id_index = "string option \<rightharpoonup> guide_channel"

text \<open>\<^verbatim>\<open>token_index.get(token, set())\<close>\<close>

definition index_get :: "token_index \<Rightarrow> string \<Rightarrow> string set" where
  "index_get ti token = (case ti token of None \<Rightarrow> {} | Some names \<Rightarrow> names)"

text \<open>\<^verbatim>\<open>token_index.setdefault(token, set()).add(original_display_name)\<close>\<close>

definition setdefault_add :: "token_index \<Rightarrow> string \<Rightarrow> string \<Rightarrow> token_index" where
  "setdefault_add ti token dn = ti(token \<mapsto> insert dn (index_get ti token))"

text \<open>The inner loop of \<^verbatim>\<open>build_xmltv_indices\<close> over the tokens of one channel.\<close>

definition index_tokens :: "guide_channel \<Rightarrow> token_index \<Rightarrow> token_index" where
  "index_tokens xml_ch ti =
     fold (\<lambda>token ti'. if length token > 1
                         then setdefault_add ti' token (display_name xml_ch) else ti')
       (py_split (normalize_name (display_name xml_ch))) ti"

text \<open>
  \<^verbatim>\<open>
  def build_xmltv_indices(xmltv_channels):
      token_index = {}
      channels_by_display_name = {normalize_name(ch['display_name']): ch for ch in xmltv_channels}
      channels_by_id = {ch['id']: ch for ch in xmltv_channels if 'id' in ch}
      for xml_ch in xmltv_channels:
          original_display_name = xml_ch['display_name']
          normalized_display_name = normalize_name(original_display_name)
          for token in normalized_display_name.split():
              if len(token) > 1:
                  token_index.setdefault(token, set()).add(original_display_name)
      return token_index, channels_by_display_name, channels_by_id
  \<close>
  A dictionary comprehension keeps the last value written under a key.  Every parsed
  channel carries the key \<^verbatim>\<open>'id'\<close>, with the value \<^verbatim>\<open>None\<close> when the attribute is
  missing, so the identifier index is keyed by the optional identifier.
\<close>

definition build_token_index :: "guide_channel list \<Rightarrow> token_index" where
  "build_token_index xmltv_channels = fold index_tokens xmltv_channels Map.empty"

definition build_channels_by_display_name :: "guide_channel list \<Rightarrow> name_index" where
  "build_channels_by_display_name xmltv_channels =
     fold (\<lambda>ch m. m(normalize_name (display_name ch) \<mapsto> ch)) xmltv_channels Map.empty"

definition build_channels_by_id :: "guide_channel list \<Rightarrow> id_index" where
  "build_channels_by_id xmltv_channels =
     fold (\<lambda>ch m. m(channel_id ch \<mapsto> ch)) xmltv_channels Map.empty"

definition build_xmltv_indices ::
  "guide_channel list \<Rightarrow> token_index \<times> name_index \<times> id_index" where
  "build_xmltv_indices xmltv_channels =
     (build_token_index xmltv_channels,
      build_channels_by_display_name xmltv_channels,
      build_channels_by_id xmltv_channels)"

section \<open>Matching engine\<close>

text \<open>
  Two things the engine takes from outside the repository are parameters of the model.
  \<^item> \<open>scorer query choice\<close> is the score that \<^verbatim>\<open>process.extractOne\<close> of fuzzywuzzy gives
    a choice: \<^verbatim>\<open>fuzz.ratio\<close> of the query and the choice, both run through the
    library's default processor.  Which ratio that is depends on the installed
    back end.
  \<^item> \<open>list_of\<close> is \<^verbatim>\<open>list(candidate_names)\<close>: the order in which CPython iterates
    a set, which the language leaves open.
\<close>

type_synonym scorer = "string \<Rightarrow> string \<Rightarrow> int"
type_synonym set_order = "string set \<Rightarrow> string list"

text \<open>
  \<^verbatim>\<open>process.extractOne(query, choices, scorer=fuzz.ratio)\<close>: the library scores every
  choice, keeps the pairs whose score reaches \<^verbatim>\<open>score_cutoff\<close> (0 by default) and
  returns \<^verbatim>\<open>max\<close> of them by score, the first of the maximal ones, or \<^verbatim>\<open>None\<close> when
  no pair is left.
\<close>

definition first_max :: "(string \<times> int) \<Rightarrow> (string \<times> int) list \<Rightarrow> string \<times> int" where
  "first_max p ps = foldl (\<lambda>best q. if snd best < snd q then q else best) p ps"

definition extractOne :: "scorer \<Rightarrow> string \<Rightarrow> string list \<Rightarrow> (string \<times> int) option" where
  "extractOne sc query choices =
     (case filter (\<lambda>p. 0 \<le> snd p) (map (\<lambda>choice. (choice, sc query choice)) choices) of
        [] \<Rightarrow> None
      | p # ps \<Rightarrow> Some (first_max p ps))"

text \<open>
  Lines 131 to 137: the candidate names of an entry and the pool handed to the fuzzy
  search.
  \<^verbatim>\<open>
  m3u_tokens = normalized_m3u_name.split()
  candidate_names = set()
  for token in m3u_tokens:
      if len(token) > 1:
          candidate_names.update(token_index.get(token, set()))
  choices = list(candidate_names) if candidate_names else all_xmltv_original_display_names
  \<close>
\<close>

definition candidate_names :: "token_index \<Rightarrow> string list \<Rightarrow> string set" where
  "candidate_names ti m3u_tokens =
     fold (\<lambda>token cand. if length token > 1 then cand \<union> index_get ti token else cand)
       m3u_tokens {}"

definition choices_of :: "set_order \<Rightarrow> token_index \<Rightarrow> string list \<Rightarrow> string \<Rightarrow> string list" where
  "choices_of list_of ti all_xmltv_original_display_names normalized_m3u_name =
     (let cand = candidate_names ti (py_split normalized_m3u_name)
      in if cand \<noteq> {} then list_of cand else all_xmltv_original_display_names)"

text \<open>The third rule (lines 131 to 142): the association and the score it yields.\<close>

definition fuzzy_match ::
  "scorer \<Rightarrow> set_order \<Rightarrow> token_index \<Rightarrow> name_index \<Rightarrow> string list \<Rightarrow> string
     \<Rightarrow> guide_channel option \<times> int" where
  "fuzzy_match sc list_of ti by_name all_names m3u_name =
     (let choices = choices_of list_of ti all_names (normalize_name m3u_name)
      in if choices \<noteq> []
         then (case extractOne sc m3u_name choices of
                 Some (matched_name, match_score) \<Rightarrow>
                   (by_name (normalize_name matched_name), match_score)
               | None \<Rightarrow> (None, 0))
         else (None, 0))"

text \<open>Line 112: the identifier hint the engine reads from an entry.\<close>

definition identifier_hint :: "playlist_entry \<Rightarrow> string" where
  "identifier_hint m3u_channel = py_strip (tvg_id m3u_channel)"

text \<open>
  The first rule applies (line 116):
  \<^verbatim>\<open>preserve_existing and tvg_id and tvg_id in channels_by_id\<close>.
\<close>

definition identifier_rule :: "id_index \<Rightarrow> bool \<Rightarrow> playlist_entry \<Rightarrow> bool" where
  "identifier_rule by_id preserve_existing m3u_channel =
     (preserve_existing \<and> identifier_hint m3u_channel \<noteq> []
      \<and> by_id (Some (identifier_hint m3u_channel)) \<noteq> None)"

text \<open>
  The body of the loop of \<^verbatim>\<open>auto_match_channels\<close> for one entry (lines 112 to 149),
  but for the progress call.
\<close>

definition match_entry ::
  "scorer \<Rightarrow> set_order \<Rightarrow> token_index \<times> name_index \<times> id_index \<Rightarrow> string list \<Rightarrow> int \<Rightarrow> bool
     \<Rightarrow> playlist_entry \<Rightarrow> match_result" where
  "match_entry sc list_of indices all_names threshold preserve_existing m3u_channel =
     (case indices of (ti, by_name, by_id) \<Rightarrow>
        let (best_match_xmltv, match_score) =
              (if identifier_rule by_id preserve_existing m3u_channel
               then (by_id (Some (identifier_hint m3u_channel)), 100)
               else
                 let normalized_m3u_name = normalize_name (name m3u_channel)
                 in if by_name normalized_m3u_name \<noteq> None
                    then (by_name normalized_m3u_name, 100)
                    else fuzzy_match sc list_of ti by_name all_names (name m3u_channel))
        in \<lparr>m3u_data = m3u_channel, xmltv_match = best_match_xmltv,
            score = match_score, selected = (threshold \<le> match_score)\<rparr>)"

text \<open>
  What a run of the engine does, in order: a call of the progress callback with its
  argument, and the append of the result of the entry at a position (from 0) of the
  playlist catalog.
\<close>

datatype event = Progress nat | Entry_processed nat

record match_state =
  processed_channels_data :: "match_result list"
  events :: "event list"

text \<open>
  \<^verbatim>\<open>
  for i, m3u_channel in enumerate(m3u_channels):
      if progress_callback:
          progress_callback(i + 1)
      ...
      processed_channels_data.append({...})
  \<close>
\<close>

fun match_loop ::
  "(playlist_entry \<Rightarrow> match_result) \<Rightarrow> bool \<Rightarrow> nat \<Rightarrow> playlist_entry list
     \<Rightarrow> match_state \<Rightarrow> match_state" where
  "match_loop body progress_callback i [] st = st"
| "match_loop body progress_callback i (m3u_channel # rest) st =
     (let st1 = (if progress_callback
                 then st\<lparr>events := events st @ [Progress (i + 1)]\<rparr> else st);
          st2 = st1\<lparr>processed_channels_data :=
                       processed_channels_data st1 @ [body m3u_channel],
                     events := events st1 @ [Entry_processed i]\<rparr>
      in match_loop body progress_callback (Suc i) rest st2)"

text \<open>
  \<^verbatim>\<open>auto_match_channels(m3u_channels, xmltv_channels, threshold, preserve_existing,
  progress_callback=None)\<close>; \<open>progress_callback\<close> says whether a callback was supplied.
  The list the function returns is \<open>processed_channels_data\<close> of the final state.
\<close>

definition auto_match_channels ::
  "scorer \<Rightarrow> set_order \<Rightarrow> playlist_entry list \<Rightarrow> guide_channel list \<Rightarrow> int \<Rightarrow> bool \<Rightarrow> bool
     \<Rightarrow> match_state" where
  "auto_match_channels sc list_of m3u_channels xmltv_channels threshold preserve_existing
       progress_callback =
     (if xmltv_channels = []
      then \<lparr>processed_channels_data = [], events = []\<rparr>
      else
        let indices = build_xmltv_indices xmltv_channels;
            all_xmltv_original_display_names = map display_name xmltv_channels
        in match_loop
             (match_entry sc list_of indices all_xmltv_original_display_names
                threshold preserve_existing)
             progress_callback 0 m3u_channels
             \<lparr>processed_channels_data = [], events = []\<rparr>)"

section \<open>Playlist generator\<close>

text \<open>
  The two patterns of \<^verbatim>\<open>generate_m3u\<close> are matched by hand-written scanners.
  \<open>dquote\<close> is the double quote.
\<close>

definition dquote :: char where
  "dquote = CHR 0x22"

definition backslash :: char where
  "backslash = CHR 0x5C"

fun starts_with :: "string \<Rightarrow> string \<Rightarrow> bool" where
  "starts_with [] s = True"
| "starts_with (p # ps) [] = False"
| "starts_with (p # ps) (c # cs) = (p = c \<and> starts_with ps cs)"

text \<open>Python's \<^verbatim>\<open>sub in s\<close> on strings.\<close>

fun is_substring :: "string \<Rightarrow> string \<Rightarrow> bool" where
  "is_substring sub [] = (sub = [])"
| "is_substring sub (c # cs) = (starts_with sub (c # cs) \<or> is_substring sub cs)"

definition tvg_id_open :: string where
  "tvg_id_open = ''tvg-id='' @ [dquote]"

text \<open>
  The pattern \<^verbatim>\<open>tvg-id="[^"]*"\<close> at the start of \<open>s\<close>: the value and the text after
  the match.  The class runs to the first double quote, which must be there.
\<close>

definition match_tvg_id :: "string \<Rightarrow> (string \<times> string) option" where
  "match_tvg_id s =
     (if starts_with tvg_id_open s
      then (let after = drop (length tvg_id_open) s
            in case dropWhile (\<lambda>c. c \<noteq> dquote) after of
                 [] \<Rightarrow> None
               | q # rest \<Rightarrow> Some (takeWhile (\<lambda>c. c \<noteq> dquote) after, rest))
      else None)"

lemma match_tvg_id_shorter:
  "match_tvg_id s = Some (v, rest) \<Longrightarrow> length rest < length s"
proof -
  assume m: "match_tvg_id s = Some (v, rest)"
  let ?after = "drop (length tvg_id_open) s"
  from m obtain q where "dropWhile (\<lambda>c. c \<noteq> dquote) ?after = q # rest"
    by (auto simp: match_tvg_id_def Let_def split: if_splits list.splits)
  then have "length rest < length (dropWhile (\<lambda>c. c \<noteq> dquote) ?after)"
    by simp
  also have "\<dots> \<le> length ?after"
    by (rule length_dropWhile_le)
  also have "\<dots> \<le> length s"
    by simp
  finally show ?thesis .
qed

text \<open>
  \<^verbatim>\<open>re.sub(r'tvg-id="[^"]*"', repl, extinf)\<close>: every match, from left to right and
  without overlap, is replaced; \<open>repl\<close> gives the replacement of a matched text.
\<close>

function sub_tvg_id :: "(string \<Rightarrow> string) \<Rightarrow> string \<Rightarrow> string" where
  "sub_tvg_id repl [] = []"
| "sub_tvg_id repl (c # cs) =
     (case match_tvg_id (c # cs) of
        Some (v, rest) \<Rightarrow> repl (tvg_id_open @ v @ [dquote]) @ sub_tvg_id repl rest
      | None \<Rightarrow> c # sub_tvg_id repl cs)"
  by pat_completeness auto
termination
  by (relation "measure (\<lambda>(repl, s). length s)")
     (auto dest: match_tvg_id_shorter)

text \<open>The values of the identifier attributes of a descriptor, as the same scan meets them.\<close>

function tvg_id_values :: "string \<Rightarrow> string list" where
  "tvg_id_values [] = []"
| "tvg_id_values (c # cs) =
     (case match_tvg_id (c # cs) of
        Some (v, rest) \<Rightarrow> v # tvg_id_values rest
      | None \<Rightarrow> tvg_id_values cs)"
  by pat_completeness auto
termination
  by (relation "measure length") (auto dest: match_tvg_id_shorter)

text \<open>
  The pattern \<^verbatim>\<open>(#EXTINF:[-]?\d+)\<close> at the start of \<open>s\<close>: the group and the text
  after it.
\<close>

definition match_extinf :: "string \<Rightarrow> (string \<times> string) option" where
  "match_extinf s =
     (if starts_with ''#EXTINF:'' s
      then (let after = drop 8 s;
                sign = (if starts_with ''-'' after then ''-'' else []);
                digits = takeWhile is_digit (drop (length sign) after)
            in if digits = [] then None
               else Some (''#EXTINF:'' @ sign @ digits,
                          dropWhile is_digit (drop (length sign) after)))
      else None)"

text \<open>
  \<^verbatim>\<open>re.sub(r'(#EXTINF:[-]?\d+)', rf'\1' + ins, s, 1)\<close>: the first match, and only
  that, is replaced by itself followed by the text \<open>ins\<close> gives for it.
\<close>

fun sub_extinf_first :: "(string \<Rightarrow> string) \<Rightarrow> string \<Rightarrow> string" where
  "sub_extinf_first ins [] = []"
| "sub_extinf_first ins (c # cs) =
     (case match_extinf (c # cs) of
        Some (group1, rest) \<Rightarrow> group1 @ ins group1 @ rest
      | None \<Rightarrow> c # sub_extinf_first ins cs)"

text \<open>\<^verbatim>\<open>s.rfind(c)\<close>: the last position of \<open>c\<close>, or \<open>-1\<close>.\<close>

definition py_rfind :: "char \<Rightarrow> string \<Rightarrow> int" where
  "py_rfind c s =
     (if c \<in> set s
      then int (length s) - 1 - int (length (takeWhile (\<lambda>x. x \<noteq> c) (rev s)))
      else - 1)"

text \<open>The text after the final comma of a descriptor (all of it when there is none).\<close>

definition after_final_comma :: "string \<Rightarrow> string" where
  "after_final_comma s = drop (nat (py_rfind (CHR '','') s + 1)) s"

text \<open>\<^verbatim>\<open>f'{xmltv["id"]}'\<close>: a missing identifier is formatted as \<^verbatim>\<open>None\<close>.\<close>

definition format_id :: "string option \<Rightarrow> string" where
  "format_id i = (case i of None \<Rightarrow> ''None'' | Some s \<Rightarrow> s)"

text \<open>
  \<^verbatim>\<open>re.sub\<close> reads a replacement string as a template (\<^verbatim>\<open>parse_template\<close> of
  CPython's \<^verbatim>\<open>re\<close>, as versions 3.12 and later have it): a backslash starts an escape
  that stands for a character or for a group of the match, or raises an exception.
  Neither pattern of \<^verbatim>\<open>generate_m3u\<close> has a named group, and the first has no group
  at all, so the one group an identifier can refer to is group 0, the whole match.
\<close>

datatype gen_error = Replacement_error

datatype piece = Literal char | Whole_match

definition is_octal :: "char \<Rightarrow> bool" where
  "is_octal c = (let n = code_point c in 48 \<le> n \<and> n \<le> 55)"

definition is_ascii_letter :: "char \<Rightarrow> bool" where
  "is_ascii_letter c =
     (let n = code_point c in (65 \<le> n \<and> n \<le> 90) \<or> (97 \<le> n \<and> n \<le> 122))"

definition octal_value :: "string \<Rightarrow> nat" where
  "octal_value ds = foldl (\<lambda>v d. 8 * v + (code_point d - 48)) 0 ds"

text \<open>The escapes that stand for one character: \<^verbatim>\<open>\a \b \f \n \r \t \v \\\<close>.\<close>

definition escape_char :: "char \<Rightarrow> char option" where
  "escape_char d =
     (if d = CHR ''a'' then Some (CHR 0x07)
      else if d = CHR ''b'' then Some (CHR 0x08)
      else if d = CHR ''f'' then Some (CHR 0x0C)
      else if d = CHR ''n'' then Some (CHR 0x0A)
      else if d = CHR ''r'' then Some (CHR 0x0D)
      else if d = CHR ''t'' then Some (CHR 0x09)
      else if d = CHR ''v'' then Some (CHR 0x0B)
      else if d = backslash then Some backslash
      else None)"

text \<open>
  \<^verbatim>\<open>\g<name>\<close>, read from behind the \<^verbatim>\<open>g\<close>: the name is a group number when it is
  made of decimal digits, and only the number 0 is a group of the pattern; any other
  name, a missing bracket and an empty name raise.
\<close>

definition group_reference :: "string \<Rightarrow> gen_error + piece list \<times> string" where
  "group_reference s =
     (case s of
        [] \<Rightarrow> Inl Replacement_error
      | lt # rest \<Rightarrow>
          let group_name = takeWhile (\<lambda>c. c \<noteq> CHR ''>'') rest
          in if lt = CHR ''<'' \<and> CHR ''>'' \<in> set rest \<and> group_name \<noteq> []
                \<and> list_all (\<lambda>c. c = CHR ''0'') group_name
             then Inr ([Whole_match], drop (Suc (length group_name)) rest)
             else Inl Replacement_error)"

text \<open>
  A backslash and a digit from 1 to 9, read from behind that digit \<open>d\<close>: three octal
  digits are the character of that value, which must not pass 255; every other form
  is a reference to a group from 1 on, which the pattern does not have.
\<close>

definition numbered_escape :: "char \<Rightarrow> string \<Rightarrow> gen_error + piece list \<times> string" where
  "numbered_escape d s =
     (case s of
        d2 # d3 # rest \<Rightarrow>
          if is_octal d \<and> is_octal d2 \<and> is_octal d3
          then (if 255 < octal_value [d, d2, d3] then Inl Replacement_error
                else Inr ([Literal (char_of (octal_value [d, d2, d3]))], rest))
          else Inl Replacement_error
      | _ \<Rightarrow> Inl Replacement_error)"

text \<open>
  One step of the template parser on a string that is not empty: the pieces it adds
  and the text left.  A backslash at the end raises; \<^verbatim>\<open>\0\<close> takes up to two octal
  digits more; a letter that is no escape raises; any other character stays behind its
  backslash.
\<close>

definition template_escape :: "string \<Rightarrow> gen_error + piece list \<times> string" where
  "template_escape s =
     (case s of
        [] \<Rightarrow> Inl Replacement_error
      | d # ds \<Rightarrow>
          if d = CHR ''g'' then group_reference ds
          else if d = CHR ''0''
          then (let more = takeWhile is_octal (take 2 ds)
                in Inr ([Literal (char_of (octal_value more mod 256))], drop (length more) ds))
          else if is_digit d then numbered_escape d ds
          else (case escape_char d of
                  Some e \<Rightarrow> Inr ([Literal e], ds)
                | None \<Rightarrow>
                    if is_ascii_letter d then Inl Replacement_error
                    else Inr ([Literal backslash, Literal d], ds)))"

definition template_token :: "char \<Rightarrow> string \<Rightarrow> gen_error + piece list \<times> string" where
  "template_token c cs = (if c = backslash then template_escape cs else Inr ([Literal c], cs))"

lemma template_token_shorter:
  "template_token c cs = Inr (ps, rest) \<Longrightarrow> length rest \<le> length cs"
proof -
  assume t: "template_token c cs = Inr (ps, rest)"
  have "\<exists>n. rest = drop n cs"
  proof (cases "c = backslash")
    case False
    then have "rest = drop 0 cs" using t by (simp add: template_token_def)
    then show ?thesis by blast
  next
    case True
    then have e: "template_escape cs = Inr (ps, rest)"
      using t by (simp add: template_token_def)
    then obtain d ds where cs: "cs = d # ds"
      by (cases cs) (simp_all add: template_escape_def)
    have "\<exists>n. rest = drop n ds"
    proof (cases "d = CHR ''g''")
      case True
      then have g: "group_reference ds = Inr (ps, rest)"
        using e cs by (simp add: template_escape_def)
      then obtain lt r where ds: "ds = lt # r"
        by (cases ds) (simp_all add: group_reference_def)
      have "rest = drop (Suc (length (takeWhile (\<lambda>c. c \<noteq> CHR ''>'') r))) r"
        using g ds by (simp add: group_reference_def Let_def split: if_splits)
      then have "rest = drop (Suc (Suc (length (takeWhile (\<lambda>c. c \<noteq> CHR ''>'') r)))) ds"
        using ds by simp
      then show ?thesis by blast
    next
      case False
      show ?thesis
      proof (cases "d = CHR ''0''")
        case True
        then have "rest = drop (length (takeWhile is_octal (take 2 ds))) ds"
          using e cs by (simp add: template_escape_def Let_def)
        then show ?thesis by blast
      next
        case zero: False
        show ?thesis
        proof (cases "is_digit d")
          case True
          then have n: "numbered_escape d ds = Inr (ps, rest)"
            using e cs False zero by (simp add: template_escape_def)
          then obtain d2 d3 r where "ds = d2 # d3 # r" "rest = r"
            by (auto simp: numbered_escape_def split: list.splits if_splits)
          then have "rest = drop 2 ds" by simp
          then show ?thesis by blast
        next
          case digit: False
          then have "rest = drop 0 ds"
            using e cs False zero
            by (auto simp: template_escape_def split: option.splits if_splits)
          then show ?thesis by blast
        qed
      qed
    qed
    then obtain n where "rest = drop (Suc n) cs"
      using cs by auto
    then show ?thesis by blast
  qed
  then show ?thesis by auto
qed

function parse_template :: "string \<Rightarrow> gen_error + piece list" where
  "parse_template [] = Inr []"
| "parse_template (c # cs) =
     (case template_token c cs of
        Inl e \<Rightarrow> Inl e
      | Inr (ps, rest) \<Rightarrow>
          (case parse_template rest of
             Inl e \<Rightarrow> Inl e
           | Inr qs \<Rightarrow> Inr (ps @ qs)))"
  by pat_completeness auto
termination
proof (relation "measure length")
  show "wf (measure length)" by simp
next
  fix c :: char and cs x2 x y
  assume "template_token c cs = Inr x2" "(x, y) = x2"
  then have "length y \<le> length cs"
    using template_token_shorter [of c cs x y] by simp
  then show "(y, c # cs) \<in> measure length" by simp
qed

text \<open>The replacement a parsed template gives for a matched text.\<close>

definition expand_template :: "piece list \<Rightarrow> string \<Rightarrow> string" where
  "expand_template template matched =
     concat (map (\<lambda>p. case p of Literal c \<Rightarrow> [c] | Whole_match \<Rightarrow> matched) template)"

text \<open>
  Lines 234 to 239 of \<^verbatim>\<open>generate_m3u\<close>:
  \<^verbatim>\<open>
  extinf = m3u['original_extinf']
  new_extinf = re.sub(r'tvg-id="[^"]*"', f'tvg-id="{xmltv["id"]}"', extinf)
  if f'tvg-id="{xmltv["id"]}"' not in new_extinf:
      new_extinf = re.sub(r'(#EXTINF:[-]?\d+)', rf'\1 tvg-id="{xmltv["id"]}"', new_extinf, 1)
  last_comma = new_extinf.rfind(',')
  if last_comma != -1: new_extinf = new_extinf[:last_comma+1] + xmltv['display_name']
  \<close>
\<close>

definition id_attribute :: "guide_channel \<Rightarrow> string" where
  "id_attribute xmltv = tvg_id_open @ format_id (channel_id xmltv) @ [dquote]"

text \<open>
  Both replacements hold the attribute text, which \<^verbatim>\<open>re.sub\<close> reads as a template
  before it looks for a match; the second is \<^verbatim>\<open>\1\<close>, a space and the attribute text,
  and its group 1 is the whole match.  The test \<^verbatim>\<open>not in\<close> looks for the attribute
  text as it stands.
\<close>

definition new_extinf :: "string \<Rightarrow> guide_channel \<Rightarrow> gen_error + string" where
  "new_extinf extinf xmltv =
     (case parse_template (id_attribute xmltv) of
        Inl e \<Rightarrow> Inl e
      | Inr template \<Rightarrow>
          let new1 = sub_tvg_id (expand_template template) extinf;
              new2 = (if \<not> is_substring (id_attribute xmltv) new1
                      then sub_extinf_first (\<lambda>group1. '' '' @ expand_template template group1) new1
                      else new1);
              last_comma = py_rfind (CHR '','') new2
          in Inr (if last_comma \<noteq> - 1
                  then take (nat (last_comma + 1)) new2 @ display_name xmltv else new2))"

text \<open>The descriptor line as written, without its line feed: \<^verbatim>\<open>new_extinf.strip()\<close>.\<close>

definition written_extinf :: "string \<Rightarrow> guide_channel \<Rightarrow> gen_error + string" where
  "written_extinf extinf xmltv =
     (case new_extinf extinf xmltv of Inl e \<Rightarrow> Inl e | Inr d \<Rightarrow> Inr (py_strip d))"

text \<open>
  \<^verbatim>\<open>generate_m3u\<close>: the text written to the file and the count returned; an error of
  the rewrite leaves the function as the exception of \<^verbatim>\<open>re.sub\<close> does.
\<close>

fun write_items :: "match_result list \<Rightarrow> string \<times> nat \<Rightarrow> gen_error + string \<times> nat" where
  "write_items [] out = Inr out"
| "write_items (item # items) out =
     (case (selected item, xmltv_match item) of
        (True, Some xmltv) \<Rightarrow>
          (case written_extinf (original_extinf (m3u_data item)) xmltv of
             Inl e \<Rightarrow> Inl e
           | Inr line \<Rightarrow>
               write_items items
                 (fst out @ line @ [CHR 0x0A] @ url (m3u_data item) @ [CHR 0x0A],
                  Suc (snd out)))
      | _ \<Rightarrow> write_items items out)"

definition generate_m3u :: "match_result list \<Rightarrow> gen_error + string \<times> nat" where
  "generate_m3u processed = write_items processed (''#EXTM3U'' @ [CHR 0x0A], 0)"

section \<open>Guide generator\<close>

text \<open>
  \<^verbatim>\<open>generate_xmltv\<close> reads the guide files of a folder twice.  A file is modelled by
  what the two readers get from it: the channels \<^verbatim>\<open>parse_xmltv\<close> returns (\<open>None\<close>
  when it raises), the \<^verbatim>\<open>programme\<close> elements \<^verbatim>\<open>iterparse\<close> yields, in order, and
  the way the stream ends: at the end of the file, with \<^verbatim>\<open>ET.ParseError\<close> (logged,
  the file is left), or with another exception, as a \<^verbatim>\<open>.gz\<close> file that is not
  gzip data or is cut short raises (line 309 does not catch it; the outer handler at
  line 316 does).  The result holds the document found in the output file when the
  function returns (none when the file was never opened) and the pair returned.
\<close>

datatype stream_end = Stream_ok | Parse_error | Other_error

record programme =
  programme_channel :: "string option"
  programme_element :: string

record xmltv_file =
  parsed :: "guide_channel list option"
  programmes :: "programme list"
  stream_end :: stream_end

record xmltv_document =
  doc_channels :: "(string \<times> string option) list"
  doc_programmes :: "programme list"

record xmltv_result =
  document :: "xmltv_document option"
  returned :: "nat \<times> nat"

text \<open>\<^verbatim>\<open>all_source_xmltv_channels\<close>: a file that fails to parse is skipped.\<close>

definition all_source_xmltv_channels :: "xmltv_file list \<Rightarrow> guide_channel list" where
  "all_source_xmltv_channels xmltv_files =
     concat (map (\<lambda>f. case parsed f of None \<Rightarrow> [] | Some chs \<Rightarrow> chs) xmltv_files)"

text \<open>
  \<^verbatim>\<open>{ch['id']: ch['element'] for ch in all_source_xmltv_channels
      if 'element' in ch and ch.get('id')}\<close>
\<close>

definition full_channel_data_map :: "guide_channel list \<Rightarrow> (string \<rightharpoonup> string option)" where
  "full_channel_data_map chs =
     fold (\<lambda>ch m. case channel_id ch of
                     None \<Rightarrow> m
                   | Some i \<Rightarrow> if i = [] then m else m(i \<mapsto> element ch))
       chs Map.empty"

text \<open>
  The loop of the first pass (lines 268 to 275) on one item; the state is
  \<^verbatim>\<open>selected_channel_ids\<close> and \<^verbatim>\<open>channel_elements_to_write\<close>, a dictionary kept as
  the list of its items in insertion order.
\<close>

definition collect_item ::
  "(string \<rightharpoonup> string option) \<Rightarrow> match_result
     \<Rightarrow> string set \<times> (string \<times> string option) list
     \<Rightarrow> string set \<times> (string \<times> string option) list" where
  "collect_item full item st =
     (case (selected item, xmltv_match item) of
        (True, Some m) \<Rightarrow>
          (case channel_id m of
             None \<Rightarrow> st
           | Some i \<Rightarrow>
               if i = [] then st
               else (insert i (fst st),
                     case full i of
                       None \<Rightarrow> snd st
                     | Some el \<Rightarrow>
                         if i \<in> set (map fst (snd st)) then snd st
                         else snd st @ [(i, el)]))
      | _ \<Rightarrow> st)"

definition collect ::
  "(string \<rightharpoonup> string option) \<Rightarrow> match_result list
     \<Rightarrow> string set \<times> (string \<times> string option) list" where
  "collect full processed = fold (collect_item full) processed ({}, [])"

text \<open>
  \<^verbatim>\<open>for channel_id in sorted(channel_elements_to_write.keys()):
      xf.write(channel_elements_to_write[channel_id])\<close>
\<close>

definition write_channels :: "(string \<times> string option) list \<Rightarrow> (string \<times> string option) list" where
  "write_channels to_write =
     map (\<lambda>i. (i, case map_of to_write i of None \<Rightarrow> None | Some el \<Rightarrow> el))
       (sort (map fst to_write))"

text \<open>\<^verbatim>\<open>elem.get('channel') in selected_channel_ids\<close>\<close>

definition wanted_programme :: "string set \<Rightarrow> programme \<Rightarrow> bool" where
  "wanted_programme ids p =
     (case programme_channel p of None \<Rightarrow> False | Some c \<Rightarrow> c \<in> ids)"

text \<open>
  The second loop over the files (lines 299 to 310): the programmes written, and
  whether the loop came to its end.  A stream that ends with an exception other than
  a parse error leaves the loop there, with what it has written so far.
\<close>

fun write_programmes ::
  "string set \<Rightarrow> xmltv_file list \<Rightarrow> programme list \<Rightarrow> programme list \<times> bool" where
  "write_programmes ids [] written = (written, True)"
| "write_programmes ids (f # fs) written =
     (let written' = written @ filter (wanted_programme ids) (programmes f)
      in if stream_end f = Other_error then (written', False)
         else write_programmes ids fs written')"

text \<open>
  \<^verbatim>\<open>generate_xmltv\<close>.  With no wanted identifier it returns \<open>(0, 0)\<close> before the
  output is opened.  Otherwise the channel subtrees are written, then the programmes;
  when the loop over the files ends, the two counts are returned (line 314); when an
  exception leaves it, the outer handler returns \<open>(0, 0)\<close> (line 318) and the output
  file keeps what was written.
\<close>

definition generate_xmltv :: "match_result list \<Rightarrow> xmltv_file list \<Rightarrow> xmltv_result" where
  "generate_xmltv processed xmltv_files =
     (let full = full_channel_data_map (all_source_xmltv_channels xmltv_files);
          (selected_channel_ids, channel_elements_to_write) = collect full processed
      in if selected_channel_ids = {}
         then \<lparr>document = None, returned = (0, 0)\<rparr>
         else (case write_programmes selected_channel_ids xmltv_files [] of
                 (progs, completed) \<Rightarrow>
                   \<lparr>document = Some \<lparr>doc_channels = write_channels channel_elements_to_write,
                                      doc_programmes = progs\<rparr>,
                    returned = (if completed
                                then (length channel_elements_to_write, length progs)
                                else (0, 0))\<rparr>))"

section \<open>Notions used in the statements and proofs\<close>

text \<open>
  A string is \<open>tidy\<close> when its only white space is the space and no two spaces are
  adjacent; the flag says that the character before the string was white space.
\<close>

fun tidy :: "bool \<Rightarrow> string \<Rightarrow> bool" where
  "tidy b [] = True"
| "tidy b (c # cs) =
     (if is_space c then c = CHR '' '' \<and> \<not> b \<and> tidy True cs else tidy False cs)"

text \<open>
  The two orders in which a run over \<open>n\<close> entries can interleave the progress calls
  with the processing of the entries: the call for an entry before the entry is
  processed, or after it.
\<close>

definition trace_callback_before :: "nat \<Rightarrow> event list" where
  "trace_callback_before n = concat (map (\<lambda>i. [Progress (i + 1), Entry_processed i]) [0..<n])"

definition trace_callback_after :: "nat \<Rightarrow> event list" where
  "trace_callback_after n = concat (map (\<lambda>i. [Entry_processed i, Progress (i + 1)]) [0..<n])"

text \<open>\<^verbatim>\<open>str.rstrip()\<close>; \<open>py_strip s\<close> is \<open>py_rstrip (dropWhile is_space s)\<close>.\<close>

definition py_rstrip :: "string \<Rightarrow> string" where
  "py_rstrip s = rev (dropWhile is_space (rev s))"

text \<open>The arguments of the progress calls of a run, in order.\<close>

fun progress_calls :: "event list \<Rightarrow> nat list" where
  "progress_calls [] = []"
| "progress_calls (Progress n # es) = n # progress_calls es"
| "progress_calls (Entry_processed i # es) = progress_calls es"

text \<open>
  The identifier a result asks the guide generator for: that of its association, when
  the result is selected, has an association and the identifier is not empty.  The
  wanted set of a result list holds these identifiers.
\<close>

definition wanted_id :: "match_result \<Rightarrow> string option" where
  "wanted_id item =
     (if selected item
      then (case xmltv_match item of
              None \<Rightarrow> None
            | Some m \<Rightarrow>
                (case channel_id m of
                   None \<Rightarrow> None
                 | Some i \<Rightarrow> if i = [] then None else Some i))
      else None)"

definition wanted_ids :: "match_result list \<Rightarrow> string set" where
  "wanted_ids processed = set (List.map_filter wanted_id processed)"

subsection \<open>Sample data\<close>

definition example_scorer :: scorer where
  "example_scorer query choice = (if query = choice then 100 else 50)"

definition channel_hbo :: guide_channel where
  "channel_hbo =
     \<lparr>channel_id = Some ''hbo.us'', display_name = ''HBO East HD'',
      all_display_names = [''HBO East HD''], element = Some ''<channel id=hbo.us/>'',
      icon = None, xmltv_source_file = ''guide.xml''\<rparr>"

definition channel_fox :: guide_channel where
  "channel_fox =
     \<lparr>channel_id = Some ''fox.us'', display_name = ''Fox News, HD'',
      all_display_names = [''Fox News, HD''], element = Some ''<channel id=fox.us/>'',
      icon = None, xmltv_source_file = ''guide.xml''\<rparr>"

definition entry_hbo :: playlist_entry where
  "entry_hbo =
     \<lparr>name = ''HBO East'', url = ''http://example.org/1'',
      original_extinf = ''#EXTINF:-1 group-title='' @ [dquote] @ ''Movies'' @ [dquote] @ '',HBO East'',
      tvg_id = [], group_title = ''Movies'', tvg_logo = [], source_file = ''list.m3u''\<rparr>"

text \<open>An entry whose hint names one channel and whose name is that of another.\<close>

definition entry_locked :: playlist_entry where
  "entry_locked =
     \<lparr>name = ''Fox News, HD'', url = ''http://example.org/2'',
      original_extinf = ''#EXTINF:-1,Fox News, HD'',
      tvg_id = ''hbo.us'', group_title = [], tvg_logo = [], source_file = ''list.m3u''\<rparr>"

definition entry_fox :: playlist_entry where
  "entry_fox =
     \<lparr>name = ''FOX NEWS HD'', url = ''http://example.org/3'',
      original_extinf = ''#EXTINF:-1,FOX NEWS HD'',
      tvg_id = [], group_title = [], tvg_logo = [], source_file = ''list.m3u''\<rparr>"

definition programme_hbo :: programme where
  "programme_hbo = \<lparr>programme_channel = Some ''hbo.us'', programme_element = ''<programme 1/>''\<rparr>"

definition programme_fox :: programme where
  "programme_fox = \<lparr>programme_channel = Some ''fox.us'', programme_element = ''<programme 2/>''\<rparr>"

definition programme_other :: programme where
  "programme_other = \<lparr>programme_channel = Some ''cnn.us'', programme_element = ''<programme 3/>''\<rparr>"

definition guide_file :: xmltv_file where
  "guide_file =
     \<lparr>parsed = Some [channel_hbo, channel_fox],
      programmes = [programme_hbo, programme_other, programme_fox, programme_hbo],
      stream_end = Stream_ok\<rparr>"

text \<open>A file named \<^verbatim>\<open>.gz\<close> that holds no gzip data: neither reader gets anything from it.\<close>

definition broken_gz_file :: xmltv_file where
  "broken_gz_file = \<lparr>parsed = None, programmes = [], stream_end = Other_error\<rparr>"

definition result_hbo :: match_result where
  "result_hbo = \<lparr>m3u_data = entry_hbo, xmltv_match = Some channel_hbo, score = 85, selected = True\<rparr>"

definition result_fox :: match_result where
  "result_fox = \<lparr>m3u_data = entry_fox, xmltv_match = Some channel_fox, score = 100, selected = True\<rparr>"

section \<open>The name normalizer is idempotent\<close>

lemma tidy_sub_space_runs: "tidy b (sub_space_runs b s)"
  by (induction s arbitrary: b) (auto simp: is_space_def code_point_def)

lemma tidy_weaken: "tidy b s \<Longrightarrow> tidy False s"
  by (cases s) (auto split: if_splits)

lemma tidy_fix: "tidy b s \<Longrightarrow> sub_space_runs b s = s"
  by (induction s arbitrary: b) (auto split: if_splits)

lemma tidy_append: "tidy b (xs @ ys) \<Longrightarrow> tidy b xs"
  by (induction xs arbitrary: b) (auto split: if_splits)

lemma tidy_dropWhile: "tidy b s \<Longrightarrow> tidy False (dropWhile is_space s)"
  by (induction s arbitrary: b) (auto split: if_splits)

lemma lower_kept: "kept_char c \<Longrightarrow> lower_char c = c"
  by (auto simp: kept_char_def lower_char_def is_lower_az_def is_digit_def is_space_def Let_def)

lemma rev_dropWhile_split: "t = rev (dropWhile P (rev t)) @ rev (takeWhile P (rev t))"
  using takeWhile_dropWhile_id [of P "rev t"] by (metis rev_append rev_rev_ident)

lemma strip_prefix_of:
  "dropWhile is_space s = py_strip s @ rev (takeWhile is_space (rev (dropWhile is_space s)))"
  unfolding py_strip_def by (rule rev_dropWhile_split)

lemma set_py_strip: "set (py_strip s) \<subseteq> set s"
proof -
  have "set (py_strip s) \<subseteq> set (dropWhile is_space s)"
    unfolding py_strip_def using set_dropWhileD by fastforce
  also have "\<dots> \<subseteq> set s"
    using set_dropWhileD by fastforce
  finally show ?thesis .
qed

lemma tidy_py_strip: "tidy b s \<Longrightarrow> tidy False (py_strip s)"
  using tidy_dropWhile [of b s] strip_prefix_of [of s] tidy_append by metis

lemma dropWhile_strip: "dropWhile is_space (py_strip s) = py_strip s"
proof (cases "py_strip s")
  case Nil
  then show ?thesis by simp
next
  case (Cons c cs)
  have "dropWhile is_space s \<noteq> []"
  proof
    assume e: "dropWhile is_space s = []"
    have "py_strip s = []" unfolding py_strip_def e by simp
    with Cons show False by simp
  qed
  then have "\<not> is_space (hd (dropWhile is_space s))"
    by (rule hd_dropWhile)
  moreover have "hd (dropWhile is_space s) = c"
    using strip_prefix_of [of s] Cons by (metis append_Cons list.sel(1))
  ultimately show ?thesis using Cons by simp
qed

lemma py_strip_idem: "py_strip (py_strip s) = py_strip s"
proof -
  have "py_strip (py_strip s) = rev (dropWhile is_space (rev (py_strip s)))"
    by (simp add: py_strip_def [of "py_strip s"] dropWhile_strip)
  also have "rev (py_strip s) = dropWhile is_space (rev (dropWhile is_space s))"
    by (simp add: py_strip_def)
  also have "rev (dropWhile is_space (dropWhile is_space (rev (dropWhile is_space s)))) = py_strip s"
    by (simp add: py_strip_def)
  finally show ?thesis .
qed

lemma set_sub_space_runs: "set (sub_space_runs b s) \<subseteq> insert (CHR '' '') (set s)"
  by (induction s arbitrary: b) auto

lemma kept_space: "kept_char (CHR '' '')"
  by (simp add: kept_char_def is_space_def code_point_def)

lemma normalize_kept: "c \<in> set (normalize_name x) \<Longrightarrow> kept_char c"
proof -
  assume "c \<in> set (normalize_name x)"
  then have "c \<in> set (sub_space_runs False (sub_other_chars (py_lower x)))"
    unfolding normalize_name_def using set_py_strip by blast
  then have "c = CHR '' '' \<or> c \<in> set (sub_other_chars (py_lower x))"
    using set_sub_space_runs by blast
  then show ?thesis by (auto simp: kept_space sub_other_chars_def)
qed

lemma normalize_tidy: "tidy False (normalize_name x)"
  unfolding normalize_name_def by (rule tidy_py_strip [OF tidy_sub_space_runs])

text \<open>
  C10.  The name normalizer is a function of its argument alone, and normalizing a
  normalized name changes nothing: \<open>normalize_name (normalize_name x) = normalize_name x\<close>
  for every string \<open>x\<close>.
\<close>

theorem normalize_name_idempotent:
  "normalize_name (normalize_name x) = normalize_name x"
proof -
  let ?n = "normalize_name x"
  have "py_lower ?n = ?n"
    unfolding py_lower_def by (rule map_idI) (simp add: lower_kept normalize_kept)
  moreover have "sub_other_chars ?n = ?n"
    unfolding sub_other_chars_def by (simp add: normalize_kept)
  moreover have "sub_space_runs False ?n = ?n"
    by (rule tidy_fix [OF normalize_tidy])
  moreover have "py_strip ?n = ?n"
    unfolding normalize_name_def by (rule py_strip_idem)
  ultimately show ?thesis
    by (simp add: normalize_name_def [of "normalize_name x"])
qed

section \<open>Properties of the indices and of the fuzzy search\<close>

lemma match_loop_processed:
  "processed_channels_data (match_loop body cb i es st) = processed_channels_data st @ map body es"
  by (induction es arbitrary: i st) (simp_all add: Let_def)

lemma match_loop_events:
  "events (match_loop body True i es st) =
     events st @ concat (map (\<lambda>k. [Progress (k + 1), Entry_processed k]) [i..<i + length es])"
proof (induction es arbitrary: i st)
  case Nil
  then show ?case by simp
next
  case (Cons e es)
  have "i < i + length (e # es)" by simp
  then have "[i..<i + length (e # es)] = i # [Suc i..<i + length (e # es)]"
    by (rule upt_conv_Cons)
  moreover have "i + length (e # es) = Suc i + length es" by simp
  ultimately have "[i..<i + length (e # es)] = i # [Suc i..<Suc i + length es]"
    by (simp only:)
  then show ?case by (simp add: Cons.IH Let_def)
qed

lemma auto_match_results:
  "xmltv_channels \<noteq> [] \<Longrightarrow>
   processed_channels_data
     (auto_match_channels sc list_of m3u_channels xmltv_channels threshold preserve_existing cb) =
   map (match_entry sc list_of (build_xmltv_indices xmltv_channels)
          (map display_name xmltv_channels) threshold preserve_existing) m3u_channels"
  by (simp add: auto_match_channels_def match_loop_processed Let_def)

lemma index_get_setdefault_add:
  "index_get (setdefault_add ti k v) t = (if t = k then insert v (index_get ti k) else index_get ti t)"
  by (simp add: index_get_def setdefault_add_def)

lemma index_get_fold_tokens:
  "index_get (fold (\<lambda>token ti'. if length token > 1 then setdefault_add ti' token v else ti') toks ti) t =
     index_get ti t \<union> (if t \<in> set toks \<and> 1 < length t then {v} else {})"
  by (induction toks arbitrary: ti) (auto simp: index_get_setdefault_add)

lemma index_get_index_tokens:
  "index_get (index_tokens ch ti) t =
     index_get ti t \<union>
     (if t \<in> set (py_split (normalize_name (display_name ch))) \<and> 1 < length t
      then {display_name ch} else {})"
  unfolding index_tokens_def by (rule index_get_fold_tokens)

lemma index_get_fold_channels:
  "index_get (fold index_tokens chs ti) t =
     index_get ti t \<union>
     {display_name ch |ch. ch \<in> set chs
        \<and> t \<in> set (py_split (normalize_name (display_name ch))) \<and> 1 < length t}"
  by (induction chs arbitrary: ti) (auto simp: index_get_index_tokens)

lemma index_get_build:
  "index_get (build_token_index chs) t =
     {display_name ch |ch. ch \<in> set chs
        \<and> t \<in> set (py_split (normalize_name (display_name ch))) \<and> 1 < length t}"
  using index_get_fold_channels [of chs Map.empty t]
  by (simp add: build_token_index_def index_get_def)

lemma candidate_names_fold:
  "fold (\<lambda>token cand. if length token > 1 then cand \<union> index_get ti token else cand) toks acc =
     acc \<union> (\<Union>t\<in>{t \<in> set toks. 1 < length t}. index_get ti t)"
  by (induction toks arbitrary: acc) auto

lemma candidate_names_union:
  "candidate_names ti toks = (\<Union>t\<in>{t \<in> set toks. 1 < length t}. index_get ti t)"
  using candidate_names_fold [of ti toks "{}"] by (simp add: candidate_names_def)

lemma candidate_names_subset:
  "candidate_names (build_token_index chs) toks \<subseteq> set (map display_name chs)"
  by (auto simp: candidate_names_union index_get_build)

lemma candidate_names_finite: "finite (candidate_names (build_token_index chs) toks)"
  by (rule finite_subset [OF candidate_names_subset]) simp

lemma fold_upd_dom:
  "dom (fold (\<lambda>ch m. m(f ch \<mapsto> ch)) chs m0) = dom m0 \<union> f ` set chs"
  by (induction chs arbitrary: m0) auto

lemma by_name_dom:
  "dom (build_channels_by_display_name chs) = (\<lambda>ch. normalize_name (display_name ch)) ` set chs"
  unfolding build_channels_by_display_name_def by (simp add: fold_upd_dom)

lemma first_max_mem: "first_max p ps \<in> set (p # ps)"
  unfolding first_max_def
proof (induction ps arbitrary: p)
  case Nil then show ?case by simp
next
  case (Cons q qs)
  show ?case
    using Cons.IH [of "if snd p < snd q then q else p"] by (auto split: if_splits)
qed

lemma extractOne_Some:
  assumes "extractOne sc q cs = Some (m, s)"
  shows "m \<in> set cs \<and> s = sc q m \<and> 0 \<le> s"
proof -
  let ?ps = "filter (\<lambda>p. 0 \<le> snd p) (map (\<lambda>choice. (choice, sc q choice)) cs)"
  from assms obtain p ps where ps: "?ps = p # ps" and m: "(m, s) = first_max p ps"
    by (auto simp: extractOne_def split: list.splits)
  have "(m, s) \<in> set ?ps" using first_max_mem [of p ps] ps m by simp
  then show ?thesis by auto
qed

lemma extractOne_nonneg:
  assumes "\<forall>q c. 0 \<le> sc q c" and "cs \<noteq> []"
  shows "extractOne sc q cs \<noteq> None"
proof -
  have "filter (\<lambda>p. 0 \<le> snd p) (map (\<lambda>choice. (choice, sc q choice)) cs) = map (\<lambda>choice. (choice, sc q choice)) cs"
    using assms(1) by (simp add: filter_id_conv)
  then show ?thesis using assms(2) by (cases cs) (simp_all add: extractOne_def)
qed

lemma match_entry_identifier:
  assumes "identifier_rule by_id preserve_existing e"
  shows "match_entry sc list_of (ti, by_name, by_id) all_names threshold preserve_existing e =
           \<lparr>m3u_data = e, xmltv_match = by_id (Some (identifier_hint e)),
            score = 100, selected = (threshold \<le> 100)\<rparr>"
  using assms by (simp add: match_entry_def)

lemma match_entry_exact:
  assumes "\<not> identifier_rule by_id preserve_existing e"
    and "by_name (normalize_name (name e)) = Some ch"
  shows "match_entry sc list_of (ti, by_name, by_id) all_names threshold preserve_existing e =
           \<lparr>m3u_data = e, xmltv_match = Some ch, score = 100, selected = (threshold \<le> 100)\<rparr>"
  using assms by (simp add: match_entry_def)

lemma match_entry_fuzzy:
  assumes "\<not> identifier_rule by_id preserve_existing e"
    and "by_name (normalize_name (name e)) = None"
  shows "match_entry sc list_of (ti, by_name, by_id) all_names threshold preserve_existing e =
           \<lparr>m3u_data = e,
            xmltv_match = fst (fuzzy_match sc list_of ti by_name all_names (name e)),
            score = snd (fuzzy_match sc list_of ti by_name all_names (name e)),
            selected = (threshold \<le> snd (fuzzy_match sc list_of ti by_name all_names (name e)))\<rparr>"
  using assms by (simp add: match_entry_def split: prod.splits)

lemma by_id_nonempty:
  "build_channels_by_id xmltv_channels k = Some ch \<Longrightarrow> xmltv_channels \<noteq> []"
  by (auto simp: build_channels_by_id_def)

lemma by_name_nonempty:
  "build_channels_by_display_name xmltv_channels k = Some ch \<Longrightarrow> xmltv_channels \<noteq> []"
  by (auto simp: build_channels_by_display_name_def)

section \<open>The matching rules\<close>

text \<open>
  C1.  Identifier priority.  For the entry at any position of the playlist catalog: when
  the flag ``prefer identifier continuity'' (\<open>preserve_existing\<close>) is set and the
  identifier hint the engine reads from the entry (line 112: the \<^verbatim>\<open>tvg_id\<close> of the
  entry, stripped; \<^verbatim>\<open>parse_m3u\<close> stores it stripped already) is not empty and is a key
  of the identifier index, the result at that position associates the entry with the
  channel stored under that identifier and has score 100, whatever the names, the
  scorer and the other channels are.
\<close>

theorem identifier_priority:
  assumes "i < length m3u_channels"
    and "preserve_existing"
    and "identifier_hint (m3u_channels ! i) \<noteq> []"
    and "build_channels_by_id xmltv_channels (Some (identifier_hint (m3u_channels ! i))) = Some ch"
  shows "processed_channels_data
           (auto_match_channels sc list_of m3u_channels xmltv_channels threshold
              preserve_existing progress_callback) ! i =
         \<lparr>m3u_data = m3u_channels ! i, xmltv_match = Some ch, score = 100,
          selected = (threshold \<le> 100)\<rparr>"
proof -
  have ne: "xmltv_channels \<noteq> []"
    using assms(4) by (rule by_id_nonempty)
  have rule: "identifier_rule (build_channels_by_id xmltv_channels) preserve_existing
                (m3u_channels ! i)"
    using assms(2,3,4) by (simp add: identifier_rule_def)
  show ?thesis
    using assms(1,4)
    by (simp add: auto_match_results [OF ne] build_xmltv_indices_def
        match_entry_identifier [OF rule])
qed

theorem identifier_priority_witness:
  "processed_channels_data
     (auto_match_channels example_scorer sorted_list_of_set [entry_locked]
        [channel_hbo, channel_fox] 70 True False) ! 0 =
   \<lparr>m3u_data = entry_locked, xmltv_match = Some channel_hbo, score = 100, selected = True\<rparr>"
proof -
  have h3: "identifier_hint ([entry_locked] ! 0) \<noteq> []"
    by code_simp
  have h4: "build_channels_by_id [channel_hbo, channel_fox]
              (Some (identifier_hint ([entry_locked] ! 0))) = Some channel_hbo"
    by code_simp
  show ?thesis
    using identifier_priority [of 0 "[entry_locked]" True "[channel_hbo, channel_fox]"
        channel_hbo example_scorer sorted_list_of_set 70 False, OF _ _ h3 h4]
    by simp
qed

text \<open>
  C3.  Exact name.  For the entry at any position of the playlist catalog to which the
  identifier rule does not apply: when the normalized display name of the entry is a key
  of the normalized-name index, the result at that position associates the entry with
  the channel stored under that key and has score 100.
\<close>

theorem exact_name_match:
  assumes "i < length m3u_channels"
    and "\<not> identifier_rule (build_channels_by_id xmltv_channels) preserve_existing
             (m3u_channels ! i)"
    and "build_channels_by_display_name xmltv_channels
           (normalize_name (name (m3u_channels ! i))) = Some ch"
  shows "processed_channels_data
           (auto_match_channels sc list_of m3u_channels xmltv_channels threshold
              preserve_existing progress_callback) ! i =
         \<lparr>m3u_data = m3u_channels ! i, xmltv_match = Some ch, score = 100,
          selected = (threshold \<le> 100)\<rparr>"
proof -
  have ne: "xmltv_channels \<noteq> []"
    using assms(3) by (rule by_name_nonempty)
  have "match_entry sc list_of
          (build_token_index xmltv_channels, build_channels_by_display_name xmltv_channels,
           build_channels_by_id xmltv_channels)
          (map display_name xmltv_channels) threshold preserve_existing (m3u_channels ! i) =
        \<lparr>m3u_data = m3u_channels ! i, xmltv_match = Some ch, score = 100,
         selected = (threshold \<le> 100)\<rparr>"
    using assms(2,3) by (rule match_entry_exact)
  then show ?thesis
    using assms(1) by (simp add: auto_match_results [OF ne] build_xmltv_indices_def)
qed

theorem exact_name_match_witness:
  "processed_channels_data
     (auto_match_channels example_scorer sorted_list_of_set [entry_fox]
        [channel_hbo, channel_fox] 70 True False) ! 0 =
   \<lparr>m3u_data = entry_fox, xmltv_match = Some channel_fox, score = 100, selected = True\<rparr>"
proof -
  have h2: "\<not> identifier_rule (build_channels_by_id [channel_hbo, channel_fox]) True
               ([entry_fox] ! 0)"
    by code_simp
  have h3: "build_channels_by_display_name [channel_hbo, channel_fox]
              (normalize_name (name ([entry_fox] ! 0))) = Some channel_fox"
    by code_simp
  show ?thesis
    using exact_name_match [of 0 "[entry_fox]" "[channel_hbo, channel_fox]" True
        channel_fox example_scorer sorted_list_of_set 70 False, OF _ h2 h3]
    by simp
qed

text \<open>
  C2, as the code has it.  Matching against an empty guide catalog returns the empty
  result list, whatever the playlist catalog is, and calls no callback: the function
  returns before its loop.
\<close>

theorem empty_guide_catalog:
  "auto_match_channels sc list_of m3u_channels [] threshold preserve_existing progress_callback =
     \<lparr>processed_channels_data = [], events = []\<rparr>"
  by (simp add: auto_match_channels_def)

text \<open>
  C2 as stated asks for one unassociated result of score 0 per playlist entry.  With a
  playlist catalog of one entry the result list has no element.
\<close>

theorem empty_guide_catalog_counterexample:
  "length (processed_channels_data
     (auto_match_channels example_scorer sorted_list_of_set [entry_hbo] [] 70 True True))
   \<noteq> length [entry_hbo]"
  by (simp add: auto_match_channels_def)

lemma fuzzy_match_score:
  assumes "\<forall>q c. sc q c \<le> 100"
  shows "0 \<le> snd (fuzzy_match sc list_of ti by_name all_names n)
       \<and> snd (fuzzy_match sc list_of ti by_name all_names n) \<le> 100"
proof (cases "extractOne sc n (choices_of list_of ti all_names (normalize_name n))")
  case None
  then show ?thesis by (simp add: fuzzy_match_def Let_def)
next
  case (Some p)
  obtain m s where p: "p = (m, s)" by (cases p)
  have "s = sc n m \<and> 0 \<le> s"
    using extractOne_Some Some p by blast
  then have "0 \<le> s \<and> s \<le> 100" using assms by simp
  then show ?thesis using Some p by (simp add: fuzzy_match_def Let_def)
qed

lemma match_entry_score:
  assumes "\<forall>q c. sc q c \<le> 100"
  shows "0 \<le> score (match_entry sc list_of (ti, by_name, by_id) all_names threshold pe e)
       \<and> score (match_entry sc list_of (ti, by_name, by_id) all_names threshold pe e) \<le> 100
       \<and> selected (match_entry sc list_of (ti, by_name, by_id) all_names threshold pe e) =
           (threshold \<le> score (match_entry sc list_of (ti, by_name, by_id) all_names threshold pe e))"
proof (cases "identifier_rule by_id pe e")
  case True
  then show ?thesis by (simp add: match_entry_identifier)
next
  case False
  show ?thesis
  proof (cases "by_name (normalize_name (name e))")
    case None
    then show ?thesis
      using fuzzy_match_score [OF assms] False by (simp add: match_entry_fuzzy)
  next
    case (Some ch)
    then show ?thesis using False by (simp add: match_entry_exact)
  qed
qed

text \<open>
  C4.  Score bounds.  The scorer of the library returns a ratio of at most 100.  Then
  every result the engine produces has a score between 0 and 100, and its selection
  flag is \<open>threshold \<le> score\<close>.
\<close>

theorem score_bounds:
  assumes "\<forall>query choice. sc query choice \<le> 100"
    and "r \<in> set (processed_channels_data
           (auto_match_channels sc list_of m3u_channels xmltv_channels threshold
              preserve_existing progress_callback))"
  shows "0 \<le> score r \<and> score r \<le> 100 \<and> selected r = (threshold \<le> score r)"
proof (cases "xmltv_channels = []")
  case True
  then show ?thesis using assms(2) by (simp add: auto_match_channels_def)
next
  case False
  from assms(2) obtain e where
    "r = match_entry sc list_of (build_xmltv_indices xmltv_channels)
           (map display_name xmltv_channels) threshold preserve_existing e"
    by (auto simp: auto_match_results [OF False])
  then show ?thesis
    using match_entry_score [OF assms(1)] by (simp add: build_xmltv_indices_def)
qed

theorem score_bounds_witness:
  "list_all (\<lambda>r. 0 \<le> score r \<and> score r \<le> 100 \<and> selected r = (70 \<le> score r))
     (processed_channels_data
        (auto_match_channels example_scorer sorted_list_of_set [entry_hbo, entry_locked]
           [channel_hbo, channel_fox] 70 False False))"
proof -
  have h: "\<forall>query choice. example_scorer query choice \<le> 100"
    by (simp add: example_scorer_def)
  show ?thesis
    unfolding list_all_iff using score_bounds [OF h] by blast
qed



lemma choices_subset:
  assumes "\<forall>S. finite S \<longrightarrow> set (list_of S) = S"
  shows "set (choices_of list_of (build_token_index chs) (map display_name chs) n)
           \<subseteq> set (map display_name chs)"
proof -
  let ?cand = "candidate_names (build_token_index chs) (py_split n)"
  have "set (list_of ?cand) = ?cand"
    using assms candidate_names_finite by blast
  then show ?thesis
    using candidate_names_subset [of chs "py_split n"]
    by (simp add: choices_of_def Let_def)
qed

lemma choices_nonempty:
  assumes "\<forall>S. finite S \<longrightarrow> set (list_of S) = S" and "chs \<noteq> []"
  shows "choices_of list_of (build_token_index chs) (map display_name chs) n \<noteq> []"
proof -
  let ?cand = "candidate_names (build_token_index chs) (py_split n)"
  have "set (list_of ?cand) = ?cand"
    using assms(1) candidate_names_finite by blast
  then have "?cand \<noteq> {} \<Longrightarrow> list_of ?cand \<noteq> []"
    by auto
  then show ?thesis
    using assms(2) by (auto simp: choices_of_def Let_def)
qed



lemma fuzzy_match_associated:
  assumes "\<forall>q c. 0 \<le> sc q c"
    and "\<forall>S. finite S \<longrightarrow> set (list_of S) = S"
    and "chs \<noteq> []"
  shows "fst (fuzzy_match sc list_of (build_token_index chs)
                (build_channels_by_display_name chs) (map display_name chs) n) \<noteq> None"
proof -
  let ?choices = "choices_of list_of (build_token_index chs) (map display_name chs)
                    (normalize_name n)"
  have ne: "?choices \<noteq> []"
    using assms(2,3) by (rule choices_nonempty)
  then have "extractOne sc n ?choices \<noteq> None"
    using assms(1) extractOne_nonneg by blast
  then obtain m s where ms: "extractOne sc n ?choices = Some (m, s)"
    by auto
  then have "m \<in> set ?choices"
    using extractOne_Some by blast
  then have "m \<in> set (map display_name chs)"
    using choices_subset [OF assms(2)] by blast
  then have "normalize_name m \<in> dom (build_channels_by_display_name chs)"
    unfolding by_name_dom by auto
  then show ?thesis
    using ne ms by (auto simp: fuzzy_match_def Let_def)
qed

text \<open>
  C9.  With a guide catalog that is not empty, a scorer that returns no negative ratio
  and \<open>list_of\<close> as above, every result carries an association.  For any name the
  fuzzy pool is not empty, and the normalized form of every name of the pool is a key
  of the normalized-name index.
\<close>

theorem always_associated:
  assumes "xmltv_channels \<noteq> []"
    and "\<forall>query choice. 0 \<le> sc query choice"
    and "\<forall>S. finite S \<longrightarrow> set (list_of S) = S"
    and "r \<in> set (processed_channels_data
           (auto_match_channels sc list_of m3u_channels xmltv_channels threshold
              preserve_existing progress_callback))"
  shows "xmltv_match r \<noteq> None
       \<and> choices_of list_of (build_token_index xmltv_channels)
           (map display_name xmltv_channels) n \<noteq> []
       \<and> (choice \<in> set (choices_of list_of (build_token_index xmltv_channels)
                          (map display_name xmltv_channels) n)
            \<longrightarrow> build_channels_by_display_name xmltv_channels (normalize_name choice) \<noteq> None)"
proof -
  let ?ti = "build_token_index xmltv_channels"
  let ?bn = "build_channels_by_display_name xmltv_channels"
  let ?bi = "build_channels_by_id xmltv_channels"
  let ?all = "map display_name xmltv_channels"
  from assms(4) obtain e where
    r: "r = match_entry sc list_of (?ti, ?bn, ?bi) ?all threshold preserve_existing e"
    by (auto simp: auto_match_results [OF assms(1)] build_xmltv_indices_def)
  have "xmltv_match r \<noteq> None"
  proof (cases "identifier_rule ?bi preserve_existing e")
    case True
    then show ?thesis
      unfolding r by (simp add: match_entry_identifier) (simp add: identifier_rule_def)
  next
    case False
    show ?thesis
    proof (cases "?bn (normalize_name (name e))")
      case None
      then show ?thesis
        unfolding r using False fuzzy_match_associated [OF assms(2,3,1)]
        by (simp add: match_entry_fuzzy)
    next
      case (Some ch)
      then show ?thesis unfolding r using False by (simp add: match_entry_exact)
    qed
  qed
  moreover have "choices_of list_of ?ti ?all n \<noteq> []"
    using assms(3,1) by (rule choices_nonempty)
  moreover have "choice \<in> set (choices_of list_of ?ti ?all n)
                   \<longrightarrow> ?bn (normalize_name choice) \<noteq> None"
  proof
    assume "choice \<in> set (choices_of list_of ?ti ?all n)"
    then have "choice \<in> set ?all"
      using choices_subset [OF assms(3)] by blast
    then have "normalize_name choice \<in> dom ?bn"
      unfolding by_name_dom by auto
    then show "?bn (normalize_name choice) \<noteq> None" by auto
  qed
  ultimately show ?thesis by simp
qed

theorem always_associated_witness:
  "xmltv_match (processed_channels_data
     (auto_match_channels example_scorer sorted_list_of_set [entry_hbo]
        [channel_hbo, channel_fox] 70 False False) ! 0) \<noteq> None
   \<and> processed_channels_data
       (auto_match_channels example_scorer sorted_list_of_set [entry_hbo]
          [channel_hbo, channel_fox] 70 False False) =
     [\<lparr>m3u_data = entry_hbo, xmltv_match = Some channel_hbo, score = 50, selected = False\<rparr>]"
proof -
  let ?R = "processed_channels_data
     (auto_match_channels example_scorer sorted_list_of_set [entry_hbo]
        [channel_hbo, channel_fox] 70 False False)"
  have ne: "[channel_hbo, channel_fox] \<noteq> []" by simp
  have h2: "\<forall>query choice. 0 \<le> example_scorer query choice"
    by (simp add: example_scorer_def)
  have h3: "\<forall>S. finite S \<longrightarrow> set (sorted_list_of_set S) = (S :: string set)"
    by simp
  have h4: "?R ! 0 \<in> set ?R"
    by (simp add: auto_match_results)
  have v: "?R = [\<lparr>m3u_data = entry_hbo, xmltv_match = Some channel_hbo, score = 50,
                  selected = False\<rparr>]"
    by code_simp
  show ?thesis
    using always_associated [OF ne h2 h3 h4, THEN conjunct1] v by blast
qed

lemma progress_calls_append:
  "progress_calls (xs @ ys) = progress_calls xs @ progress_calls ys"
  by (induction xs rule: progress_calls.induct) simp_all

lemma progress_calls_before: "progress_calls (trace_callback_before n) = [1..<Suc n]"
  by (induction n) (simp_all add: trace_callback_before_def progress_calls_append)

section \<open>The progress callback\<close>

text \<open>
  C8, as the code has it.  With a guide catalog that is not empty and a callback
  supplied, a run is the sequence, entry by entry in input order, of the call of the
  callback with the 1-based position of the entry followed by the processing of that
  entry: the callback is called once per entry, with 1, 2, ..., and each call comes
  before its entry is processed, whichever rule then fires.
\<close>

theorem progress_callback_order:
  assumes "xmltv_channels \<noteq> []"
  shows "events (auto_match_channels sc list_of m3u_channels xmltv_channels threshold
                   preserve_existing True) =
           trace_callback_before (length m3u_channels)
       \<and> progress_calls
           (events (auto_match_channels sc list_of m3u_channels xmltv_channels threshold
                      preserve_existing True)) =
           [1..<Suc (length m3u_channels)]"
proof -
  have "events (auto_match_channels sc list_of m3u_channels xmltv_channels threshold
                  preserve_existing True) =
          trace_callback_before (length m3u_channels)"
    using assms
    by (simp add: auto_match_channels_def Let_def match_loop_events trace_callback_before_def)
  then show ?thesis
    by (simp add: progress_calls_before)
qed

theorem progress_callback_order_witness:
  "events (auto_match_channels example_scorer sorted_list_of_set [entry_hbo, entry_locked]
             [channel_hbo, channel_fox] 70 True True) =
     [Progress 1, Entry_processed 0, Progress 2, Entry_processed 1]"
proof -
  have ne: "[channel_hbo, channel_fox] \<noteq> []" by simp
  have "trace_callback_before (length [entry_hbo, entry_locked]) =
          [Progress 1, Entry_processed 0, Progress 2, Entry_processed 1]"
    by code_simp
  then show ?thesis
    using progress_callback_order [OF ne, of example_scorer sorted_list_of_set
        "[entry_hbo, entry_locked]" 70 True]
    by simp
qed

text \<open>
  C8 as stated has each call after its entry is processed.  In the run over one entry
  the call \<open>Progress 1\<close> comes first.
\<close>

theorem progress_callback_after_counterexample:
  "events (auto_match_channels example_scorer sorted_list_of_set [entry_hbo] [channel_hbo]
             70 True True) = [Progress 1, Entry_processed 0]
   \<and> events (auto_match_channels example_scorer sorted_list_of_set [entry_hbo] [channel_hbo]
             70 True True) \<noteq> trace_callback_after (length [entry_hbo])"
  by (simp add: auto_match_channels_def Let_def trace_callback_after_def)

section \<open>The guide generator\<close>

lemma write_programmes_ok:
  "\<forall>f\<in>set fs. stream_end f \<noteq> Other_error \<Longrightarrow>
   write_programmes ids fs acc =
     (acc @ filter (wanted_programme ids) (concat (map programmes fs)), True)"
  by (induction fs arbitrary: acc) (simp_all add: Let_def)

lemma write_programmes_interrupted:
  "\<forall>f\<in>set before. stream_end f \<noteq> Other_error \<Longrightarrow> stream_end bad = Other_error \<Longrightarrow>
   write_programmes ids (before @ bad # after) acc =
     (acc @ filter (wanted_programme ids) (concat (map programmes (before @ [bad]))), False)"
  by (induction before arbitrary: acc) (simp_all add: Let_def)

lemma collect_item_ids:
  "fst (collect_item full item st) =
     fst st \<union> (case wanted_id item of None \<Rightarrow> {} | Some i \<Rightarrow> {i})"
  by (auto simp: collect_item_def wanted_id_def split: option.splits bool.splits)

lemma collect_item_keys:
  "map fst (snd (collect_item full item st)) =
     map fst (snd st) @
     (case wanted_id item of
        None \<Rightarrow> []
      | Some i \<Rightarrow> if i \<in> dom full \<and> i \<notin> set (map fst (snd st)) then [i] else [])"
  by (auto simp: collect_item_def wanted_id_def split: option.splits bool.splits)

lemma collect_item_values:
  "list_all (\<lambda>p. full (fst p) = Some (snd p)) (snd st) \<Longrightarrow>
   list_all (\<lambda>p. full (fst p) = Some (snd p)) (snd (collect_item full item st))"
  by (auto simp: collect_item_def split: option.splits bool.splits)

lemma wanted_ids_Cons:
  "wanted_ids (item # items) =
     (case wanted_id item of None \<Rightarrow> {} | Some i \<Rightarrow> {i}) \<union> wanted_ids items"
  by (simp add: wanted_ids_def List.map_filter_simps split: option.splits)

lemma collect_fold_ids:
  "fst (fold (collect_item full) items st) = fst st \<union> wanted_ids items"
proof (induction items arbitrary: st)
  case Nil
  then show ?case by (simp add: wanted_ids_def List.map_filter_simps)
next
  case (Cons item items)
  show ?case
    by (simp add: Cons.IH collect_item_ids wanted_ids_Cons Un_assoc)
qed

lemma collect_fold_keys:
  "distinct (map fst (snd st)) \<Longrightarrow>
   distinct (map fst (snd (fold (collect_item full) items st)))
   \<and> set (map fst (snd (fold (collect_item full) items st))) =
       set (map fst (snd st)) \<union> (wanted_ids items \<inter> dom full)"
proof (induction items arbitrary: st)
  case Nil
  then show ?case by (simp add: wanted_ids_def List.map_filter_simps)
next
  case (Cons item items)
  have d: "distinct (map fst (snd (collect_item full item st)))"
    using Cons.prems by (auto simp: collect_item_keys split: option.splits)
  have s: "set (map fst (snd (collect_item full item st))) =
             set (map fst (snd st)) \<union> ((case wanted_id item of None \<Rightarrow> {} | Some i \<Rightarrow> {i}) \<inter> dom full)"
    by (auto simp: collect_item_keys split: option.splits)
  show ?case
    using Cons.IH [OF d] s by (auto simp: wanted_ids_Cons split: option.splits)
qed

lemma collect_fold_values:
  "list_all (\<lambda>p. full (fst p) = Some (snd p)) (snd st) \<Longrightarrow>
   list_all (\<lambda>p. full (fst p) = Some (snd p)) (snd (fold (collect_item full) items st))"
  by (induction items arbitrary: st) (simp_all add: collect_item_values)

lemma collect_ids: "fst (collect full processed) = wanted_ids processed"
  by (simp add: collect_def collect_fold_ids)

lemma collect_keys:
  "distinct (map fst (snd (collect full processed)))
   \<and> set (map fst (snd (collect full processed))) = wanted_ids processed \<inter> dom full"
  using collect_fold_keys [of "({}, [])" full processed] by (simp add: collect_def)

lemma collect_values:
  "list_all (\<lambda>p. full (fst p) = Some (snd p)) (snd (collect full processed))"
  using collect_fold_values [of full "({}, [])" processed] by (simp add: collect_def)

text \<open>
  The channel part of the document: for every wanted identifier the fresh parse knows,
  in ascending order and once each, the subtree the fresh parse has under it.
\<close>

lemma write_channels_collect:
  "write_channels (snd (collect full processed)) =
     map (\<lambda>i. (i, case full i of None \<Rightarrow> None | Some el \<Rightarrow> el))
       (sorted_list_of_set (wanted_ids processed \<inter> dom full))"
proof -
  let ?tw = "snd (collect full processed)"
  have d: "distinct (map fst ?tw)"
    and s: "set (map fst ?tw) = wanted_ids processed \<inter> dom full"
    using collect_keys [of full processed] by simp_all
  have "sorted_list_of_set (set (map fst ?tw)) = sort (remdups (map fst ?tw))"
    by (rule sorted_list_of_set_sort_remdups)
  then have keys: "sort (map fst ?tw) = sorted_list_of_set (wanted_ids processed \<inter> dom full)"
    using d s by (simp add: distinct_remdups_id)
  have "map_of ?tw i = full i" if "i \<in> set (sort (map fst ?tw))" for i
  proof -
    from that obtain el where el: "(i, el) \<in> set ?tw"
      by auto
    then have "map_of ?tw i = Some el"
      using d by simp
    moreover have "full i = Some el"
      using collect_values [of full processed] el by (auto simp: list_all_iff)
    ultimately show ?thesis by simp
  qed
  then have "write_channels ?tw =
               map (\<lambda>i. (i, case full i of None \<Rightarrow> None | Some el \<Rightarrow> el)) (sort (map fst ?tw))"
    unfolding write_channels_def by (intro map_cong) simp_all
  then show ?thesis
    by (simp only: keys)
qed

text \<open>
  Where every stream ends at the end of its file or with a parse error, the generator
  emits and counts as follows.  With an empty wanted set nothing is written and
  \<open>(0, 0)\<close> is returned.  Otherwise the document holds, of all the programme entries the
  files yield, exactly those whose channel is in the wanted set, in the order of the
  files, and the channel subtrees of the wanted identifiers the fresh parse knows, each
  once, in ascending order of identifier; the pair returned is the number of channels
  and the number of programme entries of the document.
\<close>

lemma generate_xmltv_streams_end:
  assumes "\<forall>f\<in>set xmltv_files. stream_end f \<noteq> Other_error"
  shows "generate_xmltv processed xmltv_files =
           (let full = full_channel_data_map (all_source_xmltv_channels xmltv_files);
                channels = map (\<lambda>i. (i, case full i of None \<Rightarrow> None | Some el \<Rightarrow> el))
                             (sorted_list_of_set (wanted_ids processed \<inter> dom full));
                progs = filter (wanted_programme (wanted_ids processed))
                          (concat (map programmes xmltv_files))
            in if wanted_ids processed = {}
               then \<lparr>document = None, returned = (0, 0)\<rparr>
               else \<lparr>document = Some \<lparr>doc_channels = channels, doc_programmes = progs\<rparr>,
                     returned = (length channels, length progs)\<rparr>)"
proof -
  let ?full = "full_channel_data_map (all_source_xmltv_channels xmltv_files)"
  obtain ids tw where c: "collect ?full processed = (ids, tw)"
    by (cases "collect ?full processed")
  have ids: "ids = wanted_ids processed"
    using collect_ids [of ?full processed] c by simp
  have tw: "write_channels tw =
              map (\<lambda>i. (i, case ?full i of None \<Rightarrow> None | Some el \<Rightarrow> el))
                (sorted_list_of_set (wanted_ids processed \<inter> dom ?full))"
    using write_channels_collect [of ?full processed] c by simp
  have len: "length tw = length (write_channels tw)"
    by (simp add: write_channels_def)
  have w: "write_programmes ids xmltv_files [] =
             (filter (wanted_programme ids) (concat (map programmes xmltv_files)), True)"
    using write_programmes_ok [OF assms, of ids "[]"] by simp
  show ?thesis
    unfolding generate_xmltv_def Let_def c
    by (simp add: w len) (simp add: ids tw)
qed

text \<open>
  Where a stream ends with another exception, the output file holds the channel
  subtrees and the programme entries written up to that point, and the pair returned
  is \<open>(0, 0)\<close>.
\<close>

lemma generate_xmltv_interrupted:
  assumes "\<forall>f\<in>set before. stream_end f \<noteq> Other_error"
    and "stream_end bad = Other_error"
    and "wanted_ids processed \<noteq> {}"
  shows "generate_xmltv processed (before @ bad # after) =
           (let full = full_channel_data_map
                         (all_source_xmltv_channels (before @ bad # after))
            in \<lparr>document =
                  Some \<lparr>doc_channels =
                          map (\<lambda>i. (i, case full i of None \<Rightarrow> None | Some el \<Rightarrow> el))
                            (sorted_list_of_set (wanted_ids processed \<inter> dom full)),
                        doc_programmes =
                          filter (wanted_programme (wanted_ids processed))
                            (concat (map programmes (before @ [bad])))\<rparr>,
                returned = (0, 0)\<rparr>)"
proof -
  let ?full = "full_channel_data_map (all_source_xmltv_channels (before @ bad # after))"
  obtain ids tw where c: "collect ?full processed = (ids, tw)"
    by (cases "collect ?full processed")
  have ids: "ids = wanted_ids processed"
    using collect_ids [of ?full processed] c by simp
  have tw: "write_channels tw =
              map (\<lambda>i. (i, case ?full i of None \<Rightarrow> None | Some el \<Rightarrow> el))
                (sorted_list_of_set (wanted_ids processed \<inter> dom ?full))"
    using write_channels_collect [of ?full processed] c by simp
  have w: "write_programmes ids (before @ bad # after) [] =
             (filter (wanted_programme ids) (concat (map programmes (before @ [bad]))), False)"
    using write_programmes_interrupted [OF assms(1,2), of ids after "[]"] by simp
  show ?thesis
    unfolding generate_xmltv_def Let_def c
    using assms(3) by (simp add: w) (simp add: ids tw)
qed

text \<open>
  C7.  The claim fails on a guide folder that holds, after a guide file read to its
  end, a file named \<^verbatim>\<open>.gz\<close> that is no gzip data.  The first pass skips the second
  file (line 263 catches every exception).  The second pass writes the two wanted
  channel subtrees and the three wanted programme entries of the first file; the stream
  of the second file then raises an exception that is no parse error, which line 309
  does not catch, and the generator returns \<open>(0, 0)\<close>: not the number of channels and
  of programme entries of the document it leaves behind.
\<close>

theorem guide_generation_unreadable_gz:
  "generate_xmltv [result_hbo, result_fox, result_hbo] [guide_file, broken_gz_file] =
     \<lparr>document =
        Some \<lparr>doc_channels = [(''fox.us'', element channel_fox), (''hbo.us'', element channel_hbo)],
              doc_programmes = [programme_hbo, programme_fox, programme_hbo]\<rparr>,
      returned = (0, 0)\<rparr>
   \<and> generate_xmltv [result_hbo, result_fox, result_hbo] [guide_file] =
     \<lparr>document =
        Some \<lparr>doc_channels = [(''fox.us'', element channel_fox), (''hbo.us'', element channel_hbo)],
              doc_programmes = [programme_hbo, programme_fox, programme_hbo]\<rparr>,
      returned = (2, 3)\<rparr>"
  by code_simp

section \<open>The playlist generator\<close>

lemma starts_with_iff: "starts_with p s \<longleftrightarrow> (\<exists>r. s = p @ r)"
  by (induction p s rule: starts_with.induct) auto

lemma no_values_no_match: "tvg_id_values s = [] \<Longrightarrow> match_tvg_id s = None"
  by (cases s) (auto simp: match_tvg_id_def tvg_id_open_def split: option.splits)

lemma no_values_tail: "tvg_id_values (c # cs) = [] \<Longrightarrow> tvg_id_values cs = []"
  by (auto split: option.splits)

lemma sub_tvg_id_none: "tvg_id_values s = [] \<Longrightarrow> sub_tvg_id repl s = s"
proof (induction s)
  case Nil
  then show ?case by simp
next
  case (Cons c cs)
  have "match_tvg_id (c # cs) = None"
    using Cons.prems by (rule no_values_no_match)
  moreover have "tvg_id_values cs = []"
    using Cons.prems by (rule no_values_tail)
  ultimately show ?case using Cons.IH by simp
qed

lemma match_tvg_id_attribute: "match_tvg_id (tvg_id_open @ v @ dquote # r) \<noteq> None"
proof -
  have "dropWhile (\<lambda>c. c \<noteq> dquote) (v @ dquote # r) \<noteq> []"
    by (simp add: dropWhile_eq_Nil_conv)
  then show ?thesis
    by (auto simp: match_tvg_id_def starts_with_iff Let_def split: list.splits)
qed

lemma attribute_not_substring:
  "tvg_id_values s = [] \<Longrightarrow> \<not> is_substring (tvg_id_open @ v @ [dquote]) s"
proof (induction s)
  case Nil
  then show ?case by (simp add: tvg_id_open_def)
next
  case (Cons c cs)
  have "\<not> starts_with (tvg_id_open @ v @ [dquote]) (c # cs)"
  proof
    assume "starts_with (tvg_id_open @ v @ [dquote]) (c # cs)"
    then obtain r where "c # cs = tvg_id_open @ v @ dquote # r"
      by (auto simp: starts_with_iff)
    then have "match_tvg_id (c # cs) \<noteq> None"
      using match_tvg_id_attribute by simp
    then show False
      using no_values_no_match [OF Cons.prems] by simp
  qed
  then show ?case
    using Cons.IH [OF no_values_tail [OF Cons.prems]] by simp
qed

lemma match_extinf_split:
  assumes "match_extinf s = Some (field, rest)"
  shows "s = field @ rest \<and> starts_with ''#EXTINF:'' field"
proof -
  from assms obtain after where s: "s = ''#EXTINF:'' @ after"
    by (auto simp: match_extinf_def starts_with_iff split: if_splits)
  let ?sign = "if starts_with ''-'' after then ''-'' else []"
  let ?t = "drop (length ?sign) after"
  have after: "after = ?sign @ ?t"
    by (auto simp: starts_with_iff)
  have f: "field = ''#EXTINF:'' @ ?sign @ takeWhile is_digit ?t"
    and r: "rest = dropWhile is_digit ?t"
    using assms unfolding s match_extinf_def by (simp_all add: Let_def split: if_splits)
  have "s = ''#EXTINF:'' @ ?sign @ (takeWhile is_digit ?t @ dropWhile is_digit ?t)"
    using s after by (simp only: takeWhile_dropWhile_id)
  then have "s = field @ rest"
    using f r by simp
  moreover have "starts_with ''#EXTINF:'' field"
    unfolding f starts_with_iff by blast
  ultimately show ?thesis by simp
qed

lemma sub_extinf_first_head:
  assumes "match_extinf s = Some (field, rest)"
  shows "sub_extinf_first ins s = field @ ins field @ rest"
proof (cases s)
  case Nil
  then show ?thesis using assms by (simp add: match_extinf_def)
next
  case (Cons c cs)
  then show ?thesis using assms by simp
qed

lemma rfind_last:
  assumes "c \<notin> set ys"
  shows "py_rfind c (xs @ c # ys) = int (length xs)"
proof -
  have "takeWhile (\<lambda>x. x \<noteq> c) (rev ys @ c # rev xs) = rev ys"
    using assms by (auto simp: takeWhile_tail)
  then show ?thesis by (simp add: py_rfind_def)
qed

lemma take_to_last:
  assumes "c \<notin> set ys"
  shows "take (nat (py_rfind c (xs @ c # ys) + 1)) (xs @ c # ys) = xs @ [c]"
  by (simp add: rfind_last [OF assms] nat_add_distrib)

lemma after_final_comma_last:
  assumes "CHR '','' \<notin> set ys"
  shows "after_final_comma (xs @ CHR '','' # ys) = ys"
  by (simp add: after_final_comma_def rfind_last [OF assms] nat_add_distrib)

lemma py_rstrip_after:
  assumes "\<not> is_space c"
  shows "py_rstrip (xs @ c # ys) = xs @ c # py_rstrip ys"
proof -
  have "dropWhile is_space (rev ys @ c # rev xs) = dropWhile is_space (rev ys) @ c # rev xs"
    using assms by (simp add: dropWhile_append)
  then show ?thesis by (simp add: py_rstrip_def)
qed

lemma py_strip_visible_head:
  assumes "\<not> is_space (hd s)"
  shows "py_strip s = py_rstrip s"
proof (cases s)
  case Nil
  then show ?thesis by (simp add: py_strip_def py_rstrip_def)
next
  case (Cons c cs)
  then show ?thesis using assms by (simp add: py_strip_def py_rstrip_def)
qed


lemma match_extinf_field:
  assumes "match_extinf s = Some (field, rest)"
  shows "hd field = CHR ''#'' \<and> (\<forall>c\<in>set field. c \<noteq> CHR ''t'' \<and> c \<noteq> CHR '' '')"
proof -
  from assms obtain after where s: "s = ''#EXTINF:'' @ after"
    by (auto simp: match_extinf_def starts_with_iff split: if_splits)
  let ?sign = "if starts_with ''-'' after then ''-'' else []"
  let ?t = "drop (length ?sign) after"
  have f: "field = ''#EXTINF:'' @ ?sign @ takeWhile is_digit ?t"
    using assms unfolding s match_extinf_def by (simp add: Let_def split: if_splits)
  have "\<forall>c\<in>set (takeWhile is_digit ?t). is_digit c"
    by (auto dest: set_takeWhileD)
  moreover have "\<not> is_digit (CHR ''t'')" "\<not> is_digit (CHR '' '')"
    by (simp_all add: is_digit_def code_point_def)
  ultimately have "\<forall>c\<in>set (takeWhile is_digit ?t). c \<noteq> CHR ''t'' \<and> c \<noteq> CHR '' ''"
    by metis
  then show ?thesis
    unfolding f by auto
qed

lemma parse_template_plain:
  "backslash \<notin> set s \<Longrightarrow> parse_template s = Inr (map Literal s)"
  by (induction s) (auto simp: template_token_def)

lemma expand_template_plain: "expand_template (map Literal s) matched = s"
  by (induction s) (simp_all add: expand_template_def)

lemma id_attribute_plain:
  "backslash \<notin> set (format_id (channel_id xmltv)) \<Longrightarrow> backslash \<notin> set (id_attribute xmltv)"
  by (simp add: id_attribute_def tvg_id_open_def dquote_def backslash_def)

lemma new_extinf_shape:
  assumes "tvg_id_values extinf = []"
    and "backslash \<notin> set (format_id (channel_id xmltv))"
    and "match_extinf extinf = Some (field, rest)"
    and "rest = attrs @ CHR '','' # old_name"
    and "CHR '','' \<notin> set old_name"
  shows "new_extinf extinf xmltv =
           Inr (field @ '' '' @ id_attribute xmltv @ attrs @ CHR '','' # display_name xmltv)"
proof -
  let ?attr = "id_attribute xmltv"
  let ?template = "map Literal ?attr"
  have parsed: "parse_template ?attr = Inr ?template"
    using assms(2) by (intro parse_template_plain id_attribute_plain)
  have new1: "sub_tvg_id (expand_template ?template) extinf = extinf"
    using assms(1) by (rule sub_tvg_id_none)
  have absent: "\<not> is_substring ?attr extinf"
    unfolding id_attribute_def using assms(1) by (rule attribute_not_substring)
  have new2: "sub_extinf_first (\<lambda>group1. '' '' @ expand_template ?template group1) extinf =
                field @ ('' '' @ expand_template ?template field) @ rest"
    using assms(3) by (rule sub_extinf_first_head)
  have "field @ ('' '' @ expand_template ?template field) @ rest =
          (field @ '' '' @ ?attr @ attrs) @ CHR '','' # old_name"
    using assms(4) by (simp add: expand_template_plain)
  then have new2': "sub_extinf_first (\<lambda>group1. '' '' @ expand_template ?template group1) extinf =
                      (field @ '' '' @ ?attr @ attrs) @ CHR '','' # old_name"
    using new2 by simp
  have rf: "py_rfind (CHR '','') ((field @ '' '' @ ?attr @ attrs) @ CHR '','' # old_name) =
              int (length (field @ '' '' @ ?attr @ attrs))"
    using assms(5) by (rule rfind_last)
  have tk: "take (nat (py_rfind (CHR '','') ((field @ '' '' @ ?attr @ attrs) @ CHR '','' # old_name) + 1))
              ((field @ '' '' @ ?attr @ attrs) @ CHR '','' # old_name) =
            (field @ '' '' @ ?attr @ attrs) @ [CHR '','']"
    using assms(5) by (rule take_to_last)
  have "new_extinf extinf xmltv =
          Inr (take (nat (py_rfind (CHR '','') ((field @ '' '' @ ?attr @ attrs) @ CHR '','' # old_name) + 1))
                 ((field @ '' '' @ ?attr @ attrs) @ CHR '','' # old_name) @ display_name xmltv)"
    unfolding new_extinf_def parsed sum.case Let_def new1 using absent
    by (simp only: new2' rf if_True if_False not_False_eq_True) simp
  then show ?thesis
    by (simp only: tk) simp
qed

text \<open>
  An identifier with an escape: \<^verbatim>\<open>a\nb\<close> is written with a line feed, \<^verbatim>\<open>\g<0>\<close>
  stands for the text matched, and a reference to group 1 raises.
\<close>

lemma written_extinf_escapes:
  "written_extinf ''#EXTINF:-1,Old'' (channel_hbo\<lparr>channel_id := Some (''a'' @ [backslash] @ ''nb'')\<rparr>) =
     Inr (''#EXTINF:-1 tvg-id='' @ [dquote] @ ''a'' @ [CHR 0x0A] @ ''b'' @ [dquote] @ '',HBO East HD'')
   \<and> written_extinf ''#EXTINF:-1,Old'' (channel_hbo\<lparr>channel_id := Some ([backslash] @ ''g<0>'')\<rparr>) =
     Inr (''#EXTINF:-1 tvg-id='' @ [dquote] @ ''#EXTINF:-1'' @ [dquote] @ '',HBO East HD'')
   \<and> written_extinf ''#EXTINF:-1,Old'' (channel_hbo\<lparr>channel_id := Some ([backslash] @ ''1'')\<rparr>) =
     Inl Replacement_error"
  by code_simp

lemma written_extinf_shape:
  assumes "tvg_id_values extinf = []"
    and "backslash \<notin> set (format_id (channel_id xmltv))"
    and "match_extinf extinf = Some (field, rest)"
    and "rest = attrs @ CHR '','' # old_name"
    and "CHR '','' \<notin> set old_name"
  shows "written_extinf extinf xmltv =
           Inr (field @ '' '' @ id_attribute xmltv @ attrs @ CHR '','' # py_rstrip (display_name xmltv))"
proof -
  let ?head = "field @ '' '' @ id_attribute xmltv @ attrs"
  have field: "field \<noteq> []" "hd field = CHR ''#''"
    using match_extinf_split [OF assms(3)] match_extinf_field [OF assms(3)]
    by (auto simp: starts_with_iff)
  have "hd (?head @ CHR '','' # display_name xmltv) = CHR ''#''"
    using field by simp
  then have "\<not> is_space (hd (?head @ CHR '','' # display_name xmltv))"
    by (simp add: is_space_def code_point_def)
  then have "py_strip (?head @ CHR '','' # display_name xmltv) =
               py_rstrip (?head @ CHR '','' # display_name xmltv)"
    by (rule py_strip_visible_head)
  also have "\<dots> = ?head @ CHR '','' # py_rstrip (display_name xmltv)"
    by (rule py_rstrip_after) (simp add: is_space_def code_point_def)
  finally show ?thesis
    using new_extinf_shape [OF assms] by (simp add: written_extinf_def)
qed

lemma set_py_rstrip: "set (py_rstrip s) \<subseteq> set s"
  unfolding py_rstrip_def using set_dropWhileD by fastforce

lemma is_substring_iff: "is_substring p s \<longleftrightarrow> (\<exists>a b. s = a @ p @ b)"
proof (induction s)
  case Nil
  then show ?case by auto
next
  case (Cons c cs)
  show ?case
  proof
    assume "is_substring p (c # cs)"
    then consider "starts_with p (c # cs)" | "is_substring p cs" by auto
    then show "\<exists>a b. c # cs = a @ p @ b"
    proof cases
      case 1
      then obtain r where "c # cs = p @ r" by (auto simp: starts_with_iff)
      then have "c # cs = [] @ p @ r" by simp
      then show ?thesis by blast
    next
      case 2
      then obtain a b where "cs = a @ p @ b" using Cons.IH by auto
      then have "c # cs = (c # a) @ p @ b" by simp
      then show ?thesis by blast
    qed
  next
    assume "\<exists>a b. c # cs = a @ p @ b"
    then obtain a b where ab: "c # cs = a @ p @ b" by auto
    show "is_substring p (c # cs)"
    proof (cases a)
      case Nil
      then have "starts_with p (c # cs)" using ab by (auto simp: starts_with_iff)
      then show ?thesis by simp
    next
      case (Cons x a')
      then have "cs = a' @ p @ b" using ab by simp
      then have "is_substring p cs" using Cons.IH by auto
      then show ?thesis by simp
    qed
  qed
qed

lemma no_open_no_values: "\<not> is_substring tvg_id_open s \<Longrightarrow> tvg_id_values s = []"
proof (induction s)
  case Nil
  then show ?case by simp
next
  case (Cons c cs)
  then have "\<not> starts_with tvg_id_open (c # cs)" "\<not> is_substring tvg_id_open cs"
    by simp_all
  then show ?case using Cons.IH by (simp add: match_tvg_id_def)
qed

lemma substring_across:
  assumes "is_substring p (xs @ c # ys)" and "c \<notin> set p"
  shows "is_substring p xs \<or> is_substring p ys"
proof -
  from assms(1) obtain a b where ab: "xs @ c # ys = a @ p @ b"
    by (auto simp: is_substring_iff)
  then consider u where "xs = a @ u" "u @ c # ys = p @ b"
    | u where "xs @ u = a" "c # ys = u @ p @ b"
    by (auto simp: append_eq_append_conv2)
  then show ?thesis
  proof cases
    case 1
    from 1(2) consider v where "u = p @ v" | v where "u @ v = p" "c # ys = v @ b" "v \<noteq> []"
      by (auto simp: append_eq_append_conv2) (metis append.right_neutral)
    then show ?thesis
    proof cases
      case 1
      then have "xs = a @ p @ v" using \<open>xs = a @ u\<close> by simp
      then show ?thesis by (auto simp: is_substring_iff)
    next
      case 2
      then have "c \<in> set v" by (cases v) auto
      then have "c \<in> set p" using 2(1) by auto
      then show ?thesis using assms(2) by simp
    qed
  next
    case 2
    from 2(2) have "u = [] \<or> (\<exists>u'. u = c # u' \<and> ys = u' @ p @ b)"
      by (cases u) auto
    then show ?thesis
    proof
      assume "u = []"
      then have "c # ys = p @ b" using 2(2) by simp
      then have "p = [] \<or> c \<in> set p" by (cases p) auto
      then show ?thesis using assms(2) by (auto simp: is_substring_iff)
    next
      assume "\<exists>u'. u = c # u' \<and> ys = u' @ p @ b"
      then show ?thesis by (auto simp: is_substring_iff)
    qed
  qed
qed

lemma values_skip:
  assumes "\<forall>c\<in>set pre. c \<noteq> CHR ''t''"
  shows "tvg_id_values (pre @ s) = tvg_id_values s"
  using assms
proof (induction pre)
  case Nil
  then show ?case by simp
next
  case (Cons c cs)
  then have "\<not> starts_with tvg_id_open ((c # cs) @ s)"
    by (auto simp: tvg_id_open_def)
  then show ?case using Cons by (simp add: match_tvg_id_def)
qed

lemma values_attribute:
  assumes "dquote \<notin> set v"
  shows "tvg_id_values (tvg_id_open @ v @ dquote # r) = v # tvg_id_values r"
proof -
  have d: "dropWhile (\<lambda>c. c \<noteq> dquote) (v @ dquote # r) = dquote # r"
    using assms by (simp add: dropWhile_append)
  have t: "takeWhile (\<lambda>c. c \<noteq> dquote) (v @ dquote # r) = v"
    using assms by (auto simp: takeWhile_tail)
  have "match_tvg_id (tvg_id_open @ v @ dquote # r) = Some (v, r)"
    by (simp add: match_tvg_id_def starts_with_iff d t)
  moreover obtain c cs where "tvg_id_open @ v @ dquote # r = c # cs"
    by (simp add: tvg_id_open_def)
  ultimately show ?thesis by (metis tvg_id_values.simps(2) option.simps(5) prod.simps(2))
qed


lemma substring_mono_prefix:
  "is_substring p xs \<Longrightarrow> is_substring p (ys @ xs @ zs)"
  by (auto simp: is_substring_iff) (metis append.assoc)

lemma py_rstrip_prefix: "\<exists>t. s = py_rstrip s @ t"
  unfolding py_rstrip_def using rev_dropWhile_split by blast

text \<open>
  C6, as the code has it.  Take a selected, associated entry whose descriptor has no
  identifier attribute, starts with its numeric field (\<^verbatim>\<open>#EXTINF:\<close>, an optional minus
  sign, digits) and has a comma after that field, and a matched channel whose
  identifier has no backslash.  Then the descriptor written is the original one with
  the identifier attribute of the channel inserted, after one space, right behind the
  numeric field, and with the text behind the original's final comma replaced by the
  channel's primary display name, stripped of white space at its end; nothing else of
  the original changes.  When the display name has no comma, the text behind the final
  comma of the written descriptor is that display name, stripped of white space at its
  end.  When moreover the identifier
  has no double quote and neither the original descriptor nor the display name contains
  the opening of an identifier attribute, the written descriptor has exactly one
  identifier attribute, with the channel's identifier as its value.
\<close>

theorem descriptor_rewrite:
  assumes "tvg_id_values extinf = []"
    and "backslash \<notin> set (format_id (channel_id xmltv))"
    and "match_extinf extinf = Some (field, rest)"
    and "rest = attrs @ CHR '','' # old_name"
    and "CHR '','' \<notin> set old_name"
  shows "let written = field @ '' '' @ id_attribute xmltv @ attrs @ CHR '','' #
                         py_rstrip (display_name xmltv)
         in extinf = field @ attrs @ CHR '','' # old_name
          \<and> written_extinf extinf xmltv = Inr written
          \<and> (CHR '','' \<notin> set (display_name xmltv)
               \<longrightarrow> after_final_comma written = py_rstrip (display_name xmltv))
          \<and> (dquote \<notin> set (format_id (channel_id xmltv))
               \<and> \<not> is_substring tvg_id_open extinf
               \<and> \<not> is_substring tvg_id_open (display_name xmltv)
               \<longrightarrow> tvg_id_values written = [format_id (channel_id xmltv)])"
proof -
  let ?dn = "py_rstrip (display_name xmltv)"
  let ?ident = "format_id (channel_id xmltv)"
  let ?written = "field @ '' '' @ id_attribute xmltv @ attrs @ CHR '','' # ?dn"
  have ext: "extinf = field @ attrs @ CHR '','' # old_name"
    using match_extinf_split [OF assms(3)] assms(4) by simp
  have shape: "written_extinf extinf xmltv = Inr ?written"
    using assms by (rule written_extinf_shape)
  have comma: "CHR '','' \<notin> set (display_name xmltv)
                 \<longrightarrow> after_final_comma ?written = ?dn"
  proof
    assume "CHR '','' \<notin> set (display_name xmltv)"
    then have "CHR '','' \<notin> set ?dn"
      using set_py_rstrip by blast
    then have "after_final_comma ((field @ '' '' @ id_attribute xmltv @ attrs) @ CHR '','' # ?dn) = ?dn"
      by (rule after_final_comma_last)
    then show "after_final_comma ?written = ?dn" by simp
  qed
  have vals: "dquote \<notin> set ?ident \<and> \<not> is_substring tvg_id_open extinf
                \<and> \<not> is_substring tvg_id_open (display_name xmltv)
                \<longrightarrow> tvg_id_values ?written = [?ident]"
  proof
    assume a: "dquote \<notin> set ?ident \<and> \<not> is_substring tvg_id_open extinf
                \<and> \<not> is_substring tvg_id_open (display_name xmltv)"
    have "\<not> is_substring tvg_id_open attrs"
    proof
      assume "is_substring tvg_id_open attrs"
      then have "is_substring tvg_id_open (field @ attrs @ CHR '','' # old_name)"
        by (rule substring_mono_prefix)
      then show False using a ext by simp
    qed
    moreover have "\<not> is_substring tvg_id_open ?dn"
    proof
      assume sub: "is_substring tvg_id_open ?dn"
      obtain t where t: "display_name xmltv = ?dn @ t"
        using py_rstrip_prefix by blast
      have "is_substring tvg_id_open ([] @ ?dn @ t)"
        using sub by (rule substring_mono_prefix)
      then have "is_substring tvg_id_open (display_name xmltv)"
        using t by simp
      then show False using a by simp
    qed
    moreover have "CHR '','' \<notin> set tvg_id_open"
      by (simp add: tvg_id_open_def dquote_def)
    ultimately have "\<not> is_substring tvg_id_open (attrs @ CHR '','' # ?dn)"
      using substring_across by blast
    then have tail: "tvg_id_values (attrs @ CHR '','' # ?dn) = []"
      by (rule no_open_no_values)
    have skip: "\<forall>c\<in>set (field @ '' ''). c \<noteq> CHR ''t''"
      using match_extinf_field [OF assms(3)] by auto
    have "?written = (field @ '' '') @ (tvg_id_open @ ?ident @ dquote # (attrs @ CHR '','' # ?dn))"
      by (simp add: id_attribute_def)
    then have "tvg_id_values ?written =
                 tvg_id_values (tvg_id_open @ ?ident @ dquote # (attrs @ CHR '','' # ?dn))"
      using values_skip [OF skip] by simp
    also have "\<dots> = ?ident # tvg_id_values (attrs @ CHR '','' # ?dn)"
      using a by (simp add: values_attribute)
    finally show "tvg_id_values ?written = [?ident]"
      using tail by simp
  qed
  show ?thesis
    unfolding Let_def using ext shape comma vals by blast
qed


theorem descriptor_rewrite_witness:
  "written_extinf (original_extinf entry_hbo) channel_hbo =
     Inr (''#EXTINF:-1 tvg-id='' @ [dquote] @ ''hbo.us'' @ [dquote] @ '' group-title=''
          @ [dquote] @ ''Movies'' @ [dquote] @ '',HBO East HD'')
   \<and> after_final_comma
       (''#EXTINF:-1 tvg-id='' @ [dquote] @ ''hbo.us'' @ [dquote] @ '' group-title=''
        @ [dquote] @ ''Movies'' @ [dquote] @ '',HBO East HD'') = ''HBO East HD''
   \<and> tvg_id_values
       (''#EXTINF:-1 tvg-id='' @ [dquote] @ ''hbo.us'' @ [dquote] @ '' group-title=''
        @ [dquote] @ ''Movies'' @ [dquote] @ '',HBO East HD'') = [''hbo.us'']"
proof -
  let ?attrs = "'' group-title='' @ [dquote] @ ''Movies'' @ [dquote]"
  have h1: "tvg_id_values (original_extinf entry_hbo) = []"
    by code_simp
  have h2: "backslash \<notin> set (format_id (channel_id channel_hbo))"
    by code_simp
  have h3: "match_extinf (original_extinf entry_hbo) =
              Some (''#EXTINF:-1'', ?attrs @ CHR '','' # ''HBO East'')"
    by code_simp
  have h5: "CHR '','' \<notin> set ''HBO East''"
    by code_simp
  have c1: "CHR '','' \<notin> set (display_name channel_hbo)"
    by code_simp
  have c2: "dquote \<notin> set (format_id (channel_id channel_hbo))
            \<and> \<not> is_substring tvg_id_open (original_extinf entry_hbo)
            \<and> \<not> is_substring tvg_id_open (display_name channel_hbo)"
    by code_simp
  have w: "''#EXTINF:-1'' @ '' '' @ id_attribute channel_hbo @ ?attrs @ CHR '','' #
             py_rstrip (display_name channel_hbo) =
           ''#EXTINF:-1 tvg-id='' @ [dquote] @ ''hbo.us'' @ [dquote] @ '' group-title=''
           @ [dquote] @ ''Movies'' @ [dquote] @ '',HBO East HD''"
    by code_simp
  have d: "py_rstrip (display_name channel_hbo) = ''HBO East HD''"
    "format_id (channel_id channel_hbo) = ''hbo.us''"
    by code_simp+
  note r = descriptor_rewrite [OF h1 h2 h3 refl h5, unfolded Let_def w]
  have a: "written_extinf (original_extinf entry_hbo) channel_hbo =
             Inr (''#EXTINF:-1 tvg-id='' @ [dquote] @ ''hbo.us'' @ [dquote] @ '' group-title=''
                  @ [dquote] @ ''Movies'' @ [dquote] @ '',HBO East HD'')"
    using r by blast
  have b: "after_final_comma
             (''#EXTINF:-1 tvg-id='' @ [dquote] @ ''hbo.us'' @ [dquote] @ '' group-title=''
              @ [dquote] @ ''Movies'' @ [dquote] @ '',HBO East HD'') =
           py_rstrip (display_name channel_hbo)"
    using r c1 by blast
  have c: "tvg_id_values
             (''#EXTINF:-1 tvg-id='' @ [dquote] @ ''hbo.us'' @ [dquote] @ '' group-title=''
              @ [dquote] @ ''Movies'' @ [dquote] @ '',HBO East HD'') =
           [format_id (channel_id channel_hbo)]"
    using r c2 by blast
  show ?thesis
    using a b [unfolded d] c [unfolded d] by blast
qed

text \<open>
  C6 as stated fails on two descriptors without identifier attribute.  With a display
  name that has a comma (\<^verbatim>\<open>Fox News, HD\<close>) the text behind the final comma of the
  written descriptor is only the end of the name.  With a descriptor that has no number
  right behind \<^verbatim>\<open>#EXTINF:\<close> no identifier attribute is inserted at all.
\<close>

theorem descriptor_rewrite_counterexample:
  "tvg_id_values (original_extinf entry_hbo) = []
   \<and> written_extinf (original_extinf entry_hbo) channel_fox =
       Inr (''#EXTINF:-1 tvg-id='' @ [dquote] @ ''fox.us'' @ [dquote] @ '' group-title=''
            @ [dquote] @ ''Movies'' @ [dquote] @ '',Fox News, HD'')
   \<and> after_final_comma
       (''#EXTINF:-1 tvg-id='' @ [dquote] @ ''fox.us'' @ [dquote] @ '' group-title=''
        @ [dquote] @ ''Movies'' @ [dquote] @ '',Fox News, HD'') = '' HD''
   \<and> display_name channel_fox = ''Fox News, HD''
   \<and> tvg_id_values ''#EXTINF: -1,HBO East'' = []
   \<and> written_extinf ''#EXTINF: -1,HBO East'' channel_hbo = Inr ''#EXTINF: -1,HBO East HD''
   \<and> tvg_id_values ''#EXTINF: -1,HBO East HD'' = []"
  by code_simp

end
